theory Spec2Isabelle
  imports Complex_Main
begin

section \<open>Data model (app/core/models.py)\<close>

text \<open>
  A UUID is represented by its canonical string, so that \<open>str(uuid)\<close> is the identity.
  Parsing a string with \<open>UUID(...)\<close> can fail; the parser belongs to the Python library
  and is a parameter of the environment below.
\<close>

type_synonym uuid = string

text \<open>
  A dictionary with string keys and values of any kind (\<open>Dict[str, Any]\<close>). The type
  \<open>'v\<close> of values is left open: it can hold plain data as well as references to mutable
  objects that live outside the dictionary.
\<close>

type_synonym 'v pydict = "string \<rightharpoonup> 'v"

text \<open>An edge target is \<open>Union[str, List[str]]\<close>.\<close>

datatype edge_target = Single string | Branch "string list"

text \<open>
  \<open>GraphDefinition\<close>. The node and edge dictionaries are association lists in insertion
  order, since the engine takes the first key of \<open>nodes\<close>. The \<open>metadata\<close> field is never
  read by the engine and is left out.
\<close>

record graph_definition =
  graph_id :: uuid
  nodes :: "(string \<times> string) list"
  edges :: "(string \<times> edge_target) list"

text \<open>
  \<open>ExecutionLogEntry\<close>; its \<open>status\<close> field is called \<open>entry_status\<close> here. The type \<open>'s\<close> is
  what stands for a state dictionary: its contents (\<open>'v pydict\<close>) where only the contents
  matter, or the address of the dictionary object where the identity of the object matters.
\<close>

record 's execution_log_entry =
  node_name :: string
  state_snapshot :: 's
  timestamp :: real
  entry_status :: string

text \<open>\<open>RunState\<close>; its \<open>graph_id\<close> field is called \<open>run_graph_id\<close> here.\<close>

record 's run_state =
  run_id :: uuid
  run_graph_id :: uuid
  state :: 's
  log :: "'s execution_log_entry list"
  status :: string
  current_node :: "string option"
  error :: "string option"

section \<open>Exceptions and node functions\<close>

datatype exn =
    ValueError string | RuntimeError string | ImportError string | AttributeError string
  | Exception string

text \<open>\<open>str(e)\<close> of an exception built from one message.\<close>

fun str_exn :: "exn \<Rightarrow> string" where
  "str_exn (ValueError m) = m"
| "str_exn (RuntimeError m) = m"
| "str_exn (ImportError m) = m"
| "str_exn (AttributeError m) = m"
| "str_exn (Exception m) = m"

text \<open>
  What awaiting a node function gives: a dictionary, a string, any other value, or an
  exception (with its \<open>str\<close>).
\<close>

datatype 'v py_result = RetDict "'v pydict" | RetStr string | RetOther | Raises string

text \<open>
  A node function receives a shallow copy of the state dictionary. Whatever it does to the
  top level of that copy is invisible to the engine; what it does to anything else (objects
  the values refer to, counters, files) is a change of the world \<open>'w\<close>.
\<close>

type_synonym ('v, 'w) node_func = "'v pydict \<Rightarrow> 'w \<Rightarrow> 'v py_result \<times> 'w"

section \<open>Formatting\<close>

definition digit_char :: "nat \<Rightarrow> char" where
  "digit_char d = ''0123456789'' ! d"

fun str_nat :: "nat \<Rightarrow> string" where
  "str_nat n = (if n < 10 then [digit_char n] else str_nat (n div 10) @ [digit_char (n mod 10)])"

declare str_nat.simps [simp del]

text \<open>A name between single quotes, as the f-strings of the engine print it.\<close>

definition quoted :: "string \<Rightarrow> string" where
  "quoted s = [CHR 0x27] @ s @ [CHR 0x27]"

section \<open>Collaborators: registry, clock, UUID parser\<close>

text \<open>
  The environment of the engine: the registered tools of \<open>ToolRegistry\<close>, the import
  machinery that \<open>load_from_path\<close> calls (\<open>rsplit\<close>, \<open>importlib.import_module\<close>, \<open>getattr\<close>
  and the coroutine check; \<open>Inl\<close> carries the exception that they raise, of any class),
  the clock \<open>time.time()\<close> read from the world, and the constructor \<open>UUID(...)\<close>.
\<close>

record ('f, 'w) collaborators =
  tools :: "string \<rightharpoonup> 'f"
  import_function :: "string \<Rightarrow> exn + 'f"
  now :: "'w \<Rightarrow> real"
  parse_uuid :: "string \<Rightarrow> uuid option"

type_synonym ('v, 'w) env = "(('v, 'w) node_func, 'w) collaborators"

text \<open>The classes of \<open>except (ImportError, AttributeError, ValueError)\<close>.\<close>

fun caught_on_import :: "exn \<Rightarrow> bool" where
  "caught_on_import (ImportError m) = True"
| "caught_on_import (AttributeError m) = True"
| "caught_on_import (ValueError m) = True"
| "caught_on_import (RuntimeError m) = False"
| "caught_on_import (Exception m) = False"

text \<open>
  \<open>ToolRegistry.load_from_path\<close> (app/core/registry.py). \<open>Inl\<close> is the exception it raises:
  the ImportError that wraps an ImportError, AttributeError or ValueError of the import,
  or any other exception of the import as it is. The function also caches a successful
  import in \<open>_tools\<close>; the cache only repeats what the import returned, so the lookup is a
  function of the path.
\<close>

definition load_from_path :: "('f, 'w) collaborators \<Rightarrow> string \<Rightarrow> exn + 'f" where
  "load_from_path E path =
     (case tools E path of
        Some f \<Rightarrow> Inr f
      | None \<Rightarrow>
          (case import_function E path of
             Inr f \<Rightarrow> Inr f
           | Inl e \<Rightarrow>
               if caught_on_import e then
                 Inl (ImportError (''Failed to load function from path '' @ quoted path
                                    @ '': '' @ str_exn e))
               else Inl e))"

section \<open>The store (app/db/memory_store.py)\<close>

record 's memory_store =
  graphs :: "string \<rightharpoonup> graph_definition"
  runs :: "string \<rightharpoonup> 's run_state"

definition get_graph :: "'s memory_store \<Rightarrow> string \<Rightarrow> graph_definition option" where
  "get_graph st gid = graphs st gid"

text \<open>
  \<open>create_run\<close>: the identifier that \<open>uuid4()\<close> draws is the argument \<open>new_id\<close>. The state
  of the new run is \<open>initial_state.copy()\<close>, a new dictionary with the same values.
\<close>

definition create_run ::
  "'v pydict memory_store \<Rightarrow> uuid \<Rightarrow> uuid \<Rightarrow> 'v pydict \<Rightarrow> string \<times> 'v pydict memory_store" where
  "create_run st new_id gid initial_state =
     (let rs = \<lparr>run_id = new_id, run_graph_id = gid, state = initial_state, log = [],
                status = ''running'', current_node = None, error = None\<rparr>
      in (new_id, st\<lparr>runs := (runs st)(new_id \<mapsto> rs)\<rparr>))"

definition get_run :: "'s memory_store \<Rightarrow> string \<Rightarrow> 's run_state option" where
  "get_run st rid = runs st rid"

definition update_run :: "'s memory_store \<Rightarrow> string \<Rightarrow> 's run_state \<Rightarrow> 's memory_store" where
  "update_run st rid rs = st\<lparr>runs := (runs st)(rid \<mapsto> rs)\<rparr>"

section \<open>The engine (app/core/engine.py)\<close>

definition max_iterations :: nat where
  "max_iterations = 1000"

definition max_loop_iterations :: nat where
  "max_loop_iterations = 100"

text \<open>Python's truth value of an \<open>Optional[str]\<close>: \<open>None\<close> and the empty string are false.\<close>

fun truthy :: "string option \<Rightarrow> bool" where
  "truthy None = False"
| "truthy (Some s) = (s \<noteq> [])"

definition startswith_goto :: "string \<Rightarrow> bool" where
  "startswith_goto s = (take 5 s = ''goto:'')"

text \<open>
  \<open>execute_node\<close>: the result is the updated state with the next action, or the wrapped
  exception. \<open>state.update(result)\<close> is the override of the state by the returned dictionary.
\<close>

definition execute_node ::
  "string \<Rightarrow> ('v, 'w) node_func \<Rightarrow> 'v pydict \<Rightarrow> 'w \<Rightarrow> (exn + 'v pydict \<times> string option) \<times> 'w" where
  "execute_node name node_func st w =
     (case node_func st w of
        (Raises e, w') \<Rightarrow>
          (Inl (Exception (''Error executing node '' @ quoted name @ '': '' @ e)), w')
      | (RetDict result, w') \<Rightarrow> (Inr (st ++ result, None), w')
      | (RetStr result, w') \<Rightarrow>
          (if result = ''repeat'' then (Inr (st, Some ''repeat''), w')
           else if startswith_goto result then (Inr (st, Some (drop 5 result)), w')
           else (Inr (st, None), w'))
      | (RetOther, w') \<Rightarrow> (Inr (st, None), w'))"

definition get_next_nodes ::
  "string \<Rightarrow> (string \<times> edge_target) list \<Rightarrow> 'v pydict \<Rightarrow> edge_target option" where
  "get_next_nodes current edge_list st = map_of edge_list current"

text \<open>
  One pass through the body of the \<open>while\<close> loop of \<open>execute_graph\<close>, after
  \<open>iteration_count\<close> has been incremented. The local variables are \<open>loop_count\<close> and
  \<open>current_node\<close>; the set \<open>visited_nodes\<close> is written and never read, and is left out.
\<close>

datatype ('s, 'w) flow =
    Continue nat "string option" "'s run_state" 'w
  | Break "'s run_state" 'w
  | Raise exn "string option" "'s run_state" 'w

definition loop_limit_error :: exn where
  "loop_limit_error =
     RuntimeError (''Loop iteration limit ('' @ str_nat max_loop_iterations @ '') exceeded'')"

definition loop_body ::
  "('v, 'w) env \<Rightarrow> graph_definition \<Rightarrow> nat \<Rightarrow> string option \<Rightarrow> 'v pydict run_state \<Rightarrow> 'w
     \<Rightarrow> ('v pydict, 'w) flow" where
  "loop_body E g loop_count cur rs w =
     (case cur of
        None \<Rightarrow> Break (rs\<lparr>status := ''completed''\<rparr>) w
      | Some c \<Rightarrow>
          (case map_of (nodes g) c of
             None \<Rightarrow>
               Raise (ValueError (''Node '' @ quoted c @ '' not found in graph definition''))
                 cur rs w
           | Some node_path \<Rightarrow>
               if node_path = [] then
                 Raise (ValueError (''Node '' @ quoted c @ '' not found in graph definition''))
                   cur rs w
               else
                 (case load_from_path E node_path of
                    Inl (ImportError e) \<Rightarrow>
                      Raise (ValueError (''Failed to load node function '' @ quoted node_path
                                          @ '': '' @ e)) cur rs w
                  | Inl e \<Rightarrow> Raise e cur rs w
                  | Inr node_func \<Rightarrow>
                      (let rs1 = rs\<lparr>current_node := Some c\<rparr> in
                       case execute_node c node_func (state rs1) w of
                         (Inl e, w1) \<Rightarrow> Raise e cur rs1 w1
                       | (Inr (updated_state, next_action), w1) \<Rightarrow>
                           (let log_entry = \<lparr>node_name = c, state_snapshot = updated_state,
                                             timestamp = now E w1, entry_status = ''completed''\<rparr>;
                                rs2 = rs1\<lparr>state := updated_state, log := log rs1 @ [log_entry]\<rparr>
                            in
                            if next_action = Some ''repeat'' then
                              (if loop_count + 1 \<ge> max_loop_iterations
                               then Raise loop_limit_error cur rs2 w1
                               else Continue (loop_count + 1) cur rs2 w1)
                            else if truthy next_action \<and> startswith_goto (the next_action) then
                              Continue 0 (Some (drop 5 (the next_action))) rs2 w1
                            else if truthy next_action then
                              Continue 0 next_action rs2 w1
                            else
                              (case get_next_nodes c (edges g) (state rs2) of
                                 None \<Rightarrow> Break (rs2\<lparr>status := ''completed''\<rparr>) w1
                               | Some (Single n) \<Rightarrow> Continue 0 (Some n) rs2 w1
                               | Some (Branch ns) \<Rightarrow>
                                   (case ns of
                                      n # _ \<Rightarrow> Continue 0 (Some n) rs2 w1
                                    | [] \<Rightarrow> Break (rs2\<lparr>status := ''completed''\<rparr>) w1)))))))"

text \<open>
  The \<open>while\<close> loop with its \<open>else\<close> branch: the loop leaves by \<open>break\<close>, by running out of
  iterations, or by an exception, which carries the current node and the run state as the
  handler will find them.
\<close>

datatype ('s, 'w) loop_exit =
    Broke "'s run_state" 'w
  | Exhausted "'s run_state" 'w
  | Raised exn "string option" "'s run_state" 'w

function while_loop ::
  "('v, 'w) env \<Rightarrow> graph_definition \<Rightarrow> nat \<Rightarrow> nat \<Rightarrow> string option \<Rightarrow> 'v pydict run_state \<Rightarrow> 'w
     \<Rightarrow> ('v pydict, 'w) loop_exit" where
  "while_loop E g iteration_count loop_count cur rs w =
     (if iteration_count < max_iterations then
        (case loop_body E g loop_count cur rs w of
           Continue loop_count' cur' rs' w' \<Rightarrow>
             while_loop E g (iteration_count + 1) loop_count' cur' rs' w'
         | Break rs' w' \<Rightarrow> Broke rs' w'
         | Raise e cur' rs' w' \<Rightarrow> Raised e cur' rs' w')
      else Exhausted rs w)"
  by pat_completeness auto
termination
  by (relation "measure (\<lambda>(E, g, iteration_count, loop_count, cur, rs, w).
                   max_iterations - iteration_count)") auto

declare while_loop.simps [simp del]

text \<open>
  What follows the loop: the \<open>else\<close> branch of the \<open>while\<close>, the statements after it and
  the \<open>except Exception\<close> handler. Each ends with \<open>store.update_run\<close>.
\<close>

definition iteration_limit_message :: string where
  "iteration_limit_message = ''Maximum iterations ('' @ str_nat max_iterations @ '') exceeded''"

definition handle_exception ::
  "('v, 'w) env \<Rightarrow> exn \<Rightarrow> string option \<Rightarrow> 'v pydict run_state \<Rightarrow> 'w \<Rightarrow> 'v pydict run_state" where
  "handle_exception E e cur rs w =
     (let rs1 = rs\<lparr>status := ''failed'', error := Some (str_exn e), current_node := None\<rparr> in
      if log rs1 \<noteq> [] then
        rs1\<lparr>log := butlast (log rs1) @ [(last (log rs1))\<lparr>entry_status := ''error''\<rparr>]\<rparr>
      else
        rs1\<lparr>log := log rs1 @
               [\<lparr>node_name = (if truthy cur then the cur else ''unknown''),
                 state_snapshot = state rs1, timestamp = now E w, entry_status = ''error''\<rparr>]\<rparr>)"

definition finish_run :: "('v, 'w) env \<Rightarrow> ('v pydict, 'w) loop_exit \<Rightarrow> 'v pydict run_state \<times> 'w" where
  "finish_run E ex =
     (case ex of
        Broke rs w \<Rightarrow> (rs\<lparr>current_node := None\<rparr>, w)
      | Exhausted rs w \<Rightarrow>
          (rs\<lparr>status := ''failed'', error := Some iteration_limit_message,
              current_node := None\<rparr>, w)
      | Raised e cur rs w \<Rightarrow> (handle_exception E e cur rs w, w))"

text \<open>
  \<open>execute_graph\<close>. The run state that the engine mutates is the very object that
  \<open>create_run\<close> put into the store, so the store sees every change; the model writes the
  run back once, where the source calls \<open>update_run\<close>, which is every exit after the loop
  has started. Before the loop nothing is mutated.
\<close>

definition execute_graph ::
  "('v, 'w) env \<Rightarrow> 'v pydict memory_store \<Rightarrow> string \<Rightarrow> 'v pydict \<Rightarrow> string option \<Rightarrow> uuid \<Rightarrow> 'w
     \<Rightarrow> (exn + 'v pydict run_state) \<times> 'v pydict memory_store \<times> 'w" where
  "execute_graph E st gid initial_state start_node new_id w =
     (case get_graph st gid of
        None \<Rightarrow> (Inl (ValueError (''Graph '' @ quoted gid @ '' not found'')), st, w)
      | Some g \<Rightarrow>
          (case parse_uuid E gid of
             None \<Rightarrow> (Inl (ValueError ''badly formed hexadecimal UUID string''), st, w)
           | Some u \<Rightarrow>
               (let (run_id_str, st1) = create_run st new_id u initial_state in
                case get_run st1 run_id_str of
                  None \<Rightarrow> (Inl (RuntimeError ''Failed to create run''), st1, w)
                | Some rs \<Rightarrow>
                    if truthy start_node \<and> the start_node \<notin> fst ` set (nodes g) then
                      (Inl (ValueError (''Start node '' @ quoted (the start_node)
                                         @ '' not found in graph'')), st1, w)
                    else if \<not> truthy start_node \<and> nodes g = [] then
                      (Inl (ValueError ''Graph has no nodes''), st1, w)
                    else
                      (let current = (if truthy start_node then the start_node
                                      else fst (hd (nodes g)));
                           (rs', w') = finish_run E (while_loop E g 0 0 (Some current) rs w)
                       in (Inr rs', update_run st1 run_id_str rs', w')))))"

section \<open>Observations on flows and exits\<close>

fun flow_state :: "('s, 'w) flow \<Rightarrow> 's run_state" where
  "flow_state (Continue lc cur rs w) = rs"
| "flow_state (Break rs w) = rs"
| "flow_state (Raise e cur rs w) = rs"

fun flow_world :: "('s, 'w) flow \<Rightarrow> 'w" where
  "flow_world (Continue lc cur rs w) = w"
| "flow_world (Break rs w) = w"
| "flow_world (Raise e cur rs w) = w"

fun exit_state :: "('s, 'w) loop_exit \<Rightarrow> 's run_state" where
  "exit_state (Broke rs w) = rs"
| "exit_state (Exhausted rs w) = rs"
| "exit_state (Raised e cur rs w) = rs"

fun exit_world :: "('s, 'w) loop_exit \<Rightarrow> 'w" where
  "exit_world (Broke rs w) = w"
| "exit_world (Exhausted rs w) = w"
| "exit_world (Raised e cur rs w) = w"


text \<open>The pairs of node name and status along a log.\<close>

definition log_summary :: "'s run_state \<Rightarrow> (string \<times> string) list" where
  "log_summary rs = map (\<lambda>e. (node_name e, entry_status e)) (log rs)"

section \<open>Counting node invocations\<close>

text \<open>
  To count how often node functions are invoked, the world is paired with a counter and
  every node function is wrapped so that an invocation increments it. The wrapped function
  behaves as the original one on the rest of the world.
\<close>

definition counting :: "('v, 'w) node_func \<Rightarrow> ('v, nat \<times> 'w) node_func" where
  "counting f st cw = (case f st (snd cw) of (r, w') \<Rightarrow> (r, (Suc (fst cw), w')))"

definition counting_env :: "('v, 'w) env \<Rightarrow> ('v, nat \<times> 'w) env" where
  "counting_env E =
     \<lparr>tools = map_option counting \<circ> tools E,
      import_function = map_sum id counting \<circ> import_function E,
      now = now E \<circ> snd,
      parse_uuid = parse_uuid E\<rparr>"

text \<open>A flow or an exit of the plain run, with a counter put beside its world.\<close>

fun flow_with_count :: "nat \<Rightarrow> ('s, 'w) flow \<Rightarrow> ('s, nat \<times> 'w) flow" where
  "flow_with_count k (Continue lc cur rs w) = Continue lc cur rs (k, w)"
| "flow_with_count k (Break rs w) = Break rs (k, w)"
| "flow_with_count k (Raise e cur rs w) = Raise e cur rs (k, w)"

fun exit_with_count :: "nat \<Rightarrow> ('s, 'w) loop_exit \<Rightarrow> ('s, nat \<times> 'w) loop_exit" where
  "exit_with_count k (Broke rs w) = Broke rs (k, w)"
| "exit_with_count k (Exhausted rs w) = Exhausted rs (k, w)"
| "exit_with_count k (Raised e cur rs w) = Raised e cur rs (k, w)"

section \<open>Streaks of repeat\<close>

text \<open>
  \<open>returns_repeat f k st w\<close>: the next \<open>k\<close> invocations of \<open>f\<close>, starting in world \<open>w\<close>
  on state \<open>st\<close>, each return the string \<open>repeat\<close>. (A string result leaves the state as
  it is, so every invocation sees \<open>st\<close>.)
\<close>

fun returns_repeat :: "('v, 'w) node_func \<Rightarrow> nat \<Rightarrow> 'v pydict \<Rightarrow> 'w \<Rightarrow> bool" where
  "returns_repeat f 0 st w = True"
| "returns_repeat f (Suc k) st w =
     (case f st w of
        (RetStr s, w') \<Rightarrow> s = ''repeat'' \<and> returns_repeat f k st w'
      | _ \<Rightarrow> False)"

text \<open>The same for the next action that \<open>execute_node\<close> hands to the loop.\<close>

fun repeat_streak :: "string \<Rightarrow> ('v, 'w) node_func \<Rightarrow> nat \<Rightarrow> 'v pydict \<Rightarrow> 'w \<Rightarrow> bool" where
  "repeat_streak c f 0 st w = True"
| "repeat_streak c f (Suc k) st w =
     (case execute_node c f st w of
        (Inr (st', na), w') \<Rightarrow> na = Some ''repeat'' \<and> repeat_streak c f k st' w'
      | _ \<Rightarrow> False)"

section \<open>Graphs that never leave a set of well-behaved nodes\<close>

text \<open>
  A result that carries no control-flow instruction: not an exception, not \<open>repeat\<close>, not
  a string with the prefix \<open>goto:\<close>.
\<close>

fun no_control_flow :: "'v py_result \<Rightarrow> bool" where
  "no_control_flow (RetDict d) = True"
| "no_control_flow (RetStr s) = (s \<noteq> ''repeat'' \<and> \<not> startswith_goto s)"
| "no_control_flow RetOther = True"
| "no_control_flow (Raises e) = False"

text \<open>
  \<open>cyclic_within E g S\<close>: every node of \<open>S\<close> is declared with a path that resolves, its
  function never raises and never returns a control-flow string, and its edge leads to a
  node of \<open>S\<close> again. Following edges from a node of \<open>S\<close> therefore never ends.
\<close>

definition cyclic_within :: "('v, 'w) env \<Rightarrow> graph_definition \<Rightarrow> string set \<Rightarrow> bool" where
  "cyclic_within E g S =
     (\<forall>c\<in>S. \<exists>p f. map_of (nodes g) c = Some p \<and> p \<noteq> [] \<and> load_from_path E p = Inr f
        \<and> (\<forall>st w. no_control_flow (fst (f st w)))
        \<and> (\<exists>c'\<in>S. map_of (edges g) c = Some (Single c')
                \<or> (\<exists>ns. map_of (edges g) c = Some (Branch (c' # ns)))))"

section \<open>Example nodes, graphs and stores\<close>

definition noop :: "('v, 'w) node_func" where
  "noop st w = (RetOther, w)"

definition failing :: "('v, 'w) node_func" where
  "failing st w = (Raises ''boom'', w)"

definition repeating :: "('v, 'w) node_func" where
  "repeating st w = (RetStr ''repeat'', w)"

definition jump_to :: "string \<Rightarrow> ('v, 'w) node_func" where
  "jump_to target st w = (RetStr (''goto:'' @ target), w)"

definition set_x :: "(int, 'w) node_func" where
  "set_x st w = (RetDict [''x'' \<mapsto> 1], w)"

definition demo_env :: "(int, 'w) env" where
  "demo_env =
     \<lparr>tools = [''noop'' \<mapsto> noop, ''failing'' \<mapsto> failing, ''repeating'' \<mapsto> repeating,
               ''set_x'' \<mapsto> set_x, ''goto_a'' \<mapsto> jump_to ''a'',
               ''goto_repeat'' \<mapsto> jump_to ''repeat''],
      import_function = (\<lambda>p. Inl (ImportError (''No module named '' @ quoted p))),
      now = (\<lambda>w. 0),
      parse_uuid = Some\<rparr>"

definition then_fail_graph :: graph_definition where
  "then_fail_graph =
     \<lparr>graph_id = ''g-then-fail'', nodes = [(''a'', ''noop''), (''b'', ''failing'')],
      edges = [(''a'', Single ''b'')]\<rparr>"

definition self_cycle_graph :: graph_definition where
  "self_cycle_graph =
     \<lparr>graph_id = ''g-cycle'', nodes = [(''a'', ''noop'')], edges = [(''a'', Single ''a'')]\<rparr>"

definition repeat_graph :: graph_definition where
  "repeat_graph = \<lparr>graph_id = ''g-repeat'', nodes = [(''r'', ''repeating'')], edges = []\<rparr>"

definition branch_graph :: graph_definition where
  "branch_graph =
     \<lparr>graph_id = ''g-branch'',
      nodes = [(''a'', ''noop''), (''b'', ''noop''), (''c'', ''noop'')],
      edges = [(''a'', Branch [''b'', ''c''])]\<rparr>"

definition merge_graph :: graph_definition where
  "merge_graph = \<lparr>graph_id = ''g-merge'', nodes = [(''a'', ''set_x'')], edges = []\<rparr>"

definition self_goto_graph :: graph_definition where
  "self_goto_graph = \<lparr>graph_id = ''g-goto'', nodes = [(''a'', ''goto_a'')], edges = []\<rparr>"

definition node_named_repeat_graph :: graph_definition where
  "node_named_repeat_graph =
     \<lparr>graph_id = ''g-named-repeat'', nodes = [(''repeat'', ''goto_repeat'')], edges = []\<rparr>"

definition single_graph :: graph_definition where
  "single_graph = \<lparr>graph_id = ''g-single'', nodes = [(''a'', ''noop'')], edges = []\<rparr>"

definition empty_graph :: graph_definition where
  "empty_graph = \<lparr>graph_id = ''g-empty'', nodes = [], edges = []\<rparr>"

definition demo_store :: "int pydict memory_store" where
  "demo_store =
     \<lparr>graphs = [''g-then-fail'' \<mapsto> then_fail_graph, ''g-cycle'' \<mapsto> self_cycle_graph,
                ''g-repeat'' \<mapsto> repeat_graph, ''g-branch'' \<mapsto> branch_graph,
                ''g-merge'' \<mapsto> merge_graph, ''g-goto'' \<mapsto> self_goto_graph,
                ''g-named-repeat'' \<mapsto> node_named_repeat_graph,
                ''g-single'' \<mapsto> single_graph, ''g-empty'' \<mapsto> empty_graph],
      runs = Map.empty\<rparr>"

text \<open>A run as \<open>create_run\<close> makes it.\<close>

definition fresh_run :: "uuid \<Rightarrow> uuid \<Rightarrow> 's \<Rightarrow> 's run_state" where
  "fresh_run new_id gid initial_state =
     \<lparr>run_id = new_id, run_graph_id = gid, state = initial_state, log = [],
      status = ''running'', current_node = None, error = None\<rparr>"

section \<open>Results of a call\<close>

text \<open>The run state that \<open>execute_graph\<close> returns, if it returns one.\<close>

definition run_result :: "(exn + 's run_state) \<times> 'r \<Rightarrow> 's run_state option" where
  "run_result r = (case fst r of Inr rs \<Rightarrow> Some rs | Inl e \<Rightarrow> None)"



text \<open>The node at which the traversal starts, once the start node has been accepted.\<close>

definition first_node :: "graph_definition \<Rightarrow> string option \<Rightarrow> string" where
  "first_node g start_node = (if truthy start_node then the start_node else fst (hd (nodes g)))"

section \<open>Values that refer to mutable objects\<close>

text \<open>
  To speak about nested values, state values are integers or references to list objects,
  and the world is the heap that holds the lists. A dictionary holds the reference; the
  list it denotes is read through the heap.
\<close>

datatype val = VInt int | VRef nat

type_synonym heap = "nat \<Rightarrow> int list"

datatype deep = DInt int | DList "int list"

fun deref :: "heap \<Rightarrow> val \<Rightarrow> deep" where
  "deref h (VInt i) = DInt i"
| "deref h (VRef a) = DList (h a)"

definition deep_view :: "heap \<Rightarrow> val pydict \<Rightarrow> string \<Rightarrow> deep option" where
  "deep_view h d k = map_option (deref h) (d k)"

text \<open>
  A node function in the style of \<open>state[key].append(x)\<close>: it mutates the list that the
  state refers to and returns nothing.
\<close>

definition append_to :: "string \<Rightarrow> int \<Rightarrow> (val, heap) node_func" where
  "append_to key x st h =
     (case st key of
        Some (VRef a) \<Rightarrow> (RetOther, h(a := h a @ [x]))
      | Some (VInt i) \<Rightarrow> (Raises ''int object has no attribute append'', h)
      | None \<Rightarrow> (Raises (quoted key), h))"

definition heap_env :: "(val, heap) env" where
  "heap_env =
     \<lparr>tools = [''noop'' \<mapsto> noop, ''append_xs'' \<mapsto> append_to ''xs'' 1],
      import_function = (\<lambda>p. Inl (ImportError (''No module named '' @ quoted p))),
      now = (\<lambda>w. 0),
      parse_uuid = Some\<rparr>"

definition heap_graph :: graph_definition where
  "heap_graph =
     \<lparr>graph_id = ''g-heap'', nodes = [(''a'', ''noop''), (''b'', ''append_xs'')],
      edges = [(''a'', Single ''b'')]\<rparr>"

definition heap_store :: "val pydict memory_store" where
  "heap_store = \<lparr>graphs = [''g-heap'' \<mapsto> heap_graph], runs = Map.empty\<rparr>"

definition empty_heap :: heap where
  "empty_heap = (\<lambda>a. [])"

text \<open>
  The value under key \<open>k\<close> in the \<open>i\<close>-th log snapshot of a run, read through the heap \<open>h\<close>.
\<close>

definition nested_value :: "heap \<Rightarrow> nat \<Rightarrow> string \<Rightarrow> val pydict run_state \<Rightarrow> deep option" where
  "nested_value h i k rs =
     (if i < length (log rs) then deep_view h (state_snapshot (log rs ! i)) k else None)"

section \<open>The engine on dictionary objects\<close>

text \<open>
  The definitions above take a dictionary for its contents. Python dictionaries are
  objects: \<open>state.update(result)\<close> changes the object that \<open>run_state.state\<close> refers to,
  and whoever holds a reference to the same object sees the change. To say what the three
  calls of \<open>.copy()\<close> in the code achieve, the engine is written a second time with every
  state dictionary held by its address in a heap of dictionary objects. \<open>d.copy()\<close>
  allocates a new object with the bindings of \<open>d\<close>; the values bound are not copied.
\<close>

type_synonym addr = nat

record 'v dict_heap =
  cells :: "addr \<Rightarrow> 'v pydict"
  next_free :: addr

text \<open>\<open>d.copy()\<close>: the address of the new object and the heap that holds it.\<close>

definition dict_copy :: "'v dict_heap \<Rightarrow> addr \<Rightarrow> addr \<times> 'v dict_heap" where
  "dict_copy H a =
     (next_free H,
      \<lparr>cells = (cells H)(next_free H := cells H a), next_free = Suc (next_free H)\<rparr>)"

text \<open>\<open>d.update(result)\<close>, in place.\<close>

definition dict_update :: "'v dict_heap \<Rightarrow> addr \<Rightarrow> 'v pydict \<Rightarrow> 'v dict_heap" where
  "dict_update H a result = H\<lparr>cells := (cells H)(a := cells H a ++ result)\<rparr>"

text \<open>The object at an address, left with new contents by a function that was handed it.\<close>

definition dict_assign :: "'v dict_heap \<Rightarrow> addr \<Rightarrow> 'v pydict \<Rightarrow> 'v dict_heap" where
  "dict_assign H a d = H\<lparr>cells := (cells H)(a := d)\<rparr>"

text \<open>
  A node function is handed one dictionary object and may change it in place: besides its
  result and the new world it yields the contents with which it leaves that object. A
  returned dictionary is given by its contents at the time of the return. The function
  holds no reference to any other dictionary of the engine; the values of a state do not
  refer back to the state dictionaries themselves.
\<close>

type_synonym ('v, 'w) node_proc = "'v pydict \<Rightarrow> 'w \<Rightarrow> 'v py_result \<times> 'v pydict \<times> 'w"

type_synonym ('v, 'w) env_ref = "(('v, 'w) node_proc, 'w) collaborators"

text \<open>\<open>MemoryStore.create_run\<close>: the state of the run is \<open>initial_state.copy()\<close>.\<close>

definition create_run_ref ::
  "addr memory_store \<Rightarrow> 'v dict_heap \<Rightarrow> uuid \<Rightarrow> uuid \<Rightarrow> addr
     \<Rightarrow> string \<times> addr memory_store \<times> 'v dict_heap" where
  "create_run_ref st H new_id gid initial_state =
     (let (state_obj, H1) = dict_copy H initial_state;
          rs = \<lparr>run_id = new_id, run_graph_id = gid, state = state_obj, log = [],
                status = ''running'', current_node = None, error = None\<rparr>
      in (new_id, st\<lparr>runs := (runs st)(new_id \<mapsto> rs)\<rparr>, H1))"

text \<open>
  \<open>execute_node\<close>: the node function is called on \<open>state.copy()\<close>, and a returned
  dictionary is merged into the object \<open>state\<close> itself.
\<close>

definition execute_node_ref ::
  "string \<Rightarrow> ('v, 'w) node_proc \<Rightarrow> addr \<Rightarrow> 'v dict_heap \<Rightarrow> 'w
     \<Rightarrow> (exn + addr \<times> string option) \<times> 'v dict_heap \<times> 'w" where
  "execute_node_ref name node_func st H w =
     (let (state_copy, H1) = dict_copy H st in
      case node_func (cells H1 state_copy) w of
        (Raises e, left, w') \<Rightarrow>
          (Inl (Exception (''Error executing node '' @ quoted name @ '': '' @ e)),
           dict_assign H1 state_copy left, w')
      | (RetDict result, left, w') \<Rightarrow>
          (Inr (st, None), dict_update (dict_assign H1 state_copy left) st result, w')
      | (RetStr result, left, w') \<Rightarrow>
          (if result = ''repeat'' then
             (Inr (st, Some ''repeat''), dict_assign H1 state_copy left, w')
           else if startswith_goto result then
             (Inr (st, Some (drop 5 result)), dict_assign H1 state_copy left, w')
           else (Inr (st, None), dict_assign H1 state_copy left, w'))
      | (RetOther, left, w') \<Rightarrow> (Inr (st, None), dict_assign H1 state_copy left, w'))"

text \<open>
  The body of the loop: the log entry holds \<open>updated_state.copy()\<close>. The world of a flow
  is the heap of dictionaries together with the world of the node functions.
\<close>

definition loop_body_ref ::
  "('v, 'w) env_ref \<Rightarrow> graph_definition \<Rightarrow> nat \<Rightarrow> string option \<Rightarrow> addr run_state
     \<Rightarrow> 'v dict_heap \<Rightarrow> 'w \<Rightarrow> (addr, 'v dict_heap \<times> 'w) flow" where
  "loop_body_ref E g loop_count cur rs H w =
     (case cur of
        None \<Rightarrow> Break (rs\<lparr>status := ''completed''\<rparr>) (H, w)
      | Some c \<Rightarrow>
          (case map_of (nodes g) c of
             None \<Rightarrow>
               Raise (ValueError (''Node '' @ quoted c @ '' not found in graph definition''))
                 cur rs (H, w)
           | Some node_path \<Rightarrow>
               if node_path = [] then
                 Raise (ValueError (''Node '' @ quoted c @ '' not found in graph definition''))
                   cur rs (H, w)
               else
                 (case load_from_path E node_path of
                    Inl (ImportError e) \<Rightarrow>
                      Raise (ValueError (''Failed to load node function '' @ quoted node_path
                                          @ '': '' @ e)) cur rs (H, w)
                  | Inl e \<Rightarrow> Raise e cur rs (H, w)
                  | Inr node_func \<Rightarrow>
                      (let rs1 = rs\<lparr>current_node := Some c\<rparr> in
                       case execute_node_ref c node_func (state rs1) H w of
                         (Inl e, H1, w1) \<Rightarrow> Raise e cur rs1 (H1, w1)
                       | (Inr (updated_state, next_action), H1, w1) \<Rightarrow>
                           (let (snapshot, H2) = dict_copy H1 updated_state;
                                log_entry = \<lparr>node_name = c, state_snapshot = snapshot,
                                             timestamp = now E w1, entry_status = ''completed''\<rparr>;
                                rs2 = rs1\<lparr>log := log rs1 @ [log_entry]\<rparr>
                            in
                            if next_action = Some ''repeat'' then
                              (if loop_count + 1 \<ge> max_loop_iterations
                               then Raise loop_limit_error cur rs2 (H2, w1)
                               else Continue (loop_count + 1) cur rs2 (H2, w1))
                            else if truthy next_action \<and> startswith_goto (the next_action) then
                              Continue 0 (Some (drop 5 (the next_action))) rs2 (H2, w1)
                            else if truthy next_action then
                              Continue 0 next_action rs2 (H2, w1)
                            else
                              (case get_next_nodes c (edges g) (cells H2 (state rs2)) of
                                 None \<Rightarrow> Break (rs2\<lparr>status := ''completed''\<rparr>) (H2, w1)
                               | Some (Single n) \<Rightarrow> Continue 0 (Some n) rs2 (H2, w1)
                               | Some (Branch ns) \<Rightarrow>
                                   (case ns of
                                      n # _ \<Rightarrow> Continue 0 (Some n) rs2 (H2, w1)
                                    | [] \<Rightarrow> Break (rs2\<lparr>status := ''completed''\<rparr>) (H2, w1))))))))"

function while_loop_ref ::
  "('v, 'w) env_ref \<Rightarrow> graph_definition \<Rightarrow> nat \<Rightarrow> nat \<Rightarrow> string option \<Rightarrow> addr run_state
     \<Rightarrow> 'v dict_heap \<Rightarrow> 'w \<Rightarrow> (addr, 'v dict_heap \<times> 'w) loop_exit" where
  "while_loop_ref E g iteration_count loop_count cur rs H w =
     (if iteration_count < max_iterations then
        (case loop_body_ref E g loop_count cur rs H w of
           Continue loop_count' cur' rs' (H', w') \<Rightarrow>
             while_loop_ref E g (iteration_count + 1) loop_count' cur' rs' H' w'
         | Break rs' hw \<Rightarrow> Broke rs' hw
         | Raise e cur' rs' hw \<Rightarrow> Raised e cur' rs' hw)
      else Exhausted rs (H, w))"
  by pat_completeness auto
termination
  by (relation "measure (\<lambda>(E, g, iteration_count, loop_count, cur, rs, H, w).
                   max_iterations - iteration_count)") auto

declare while_loop_ref.simps [simp del]

text \<open>The handler: the entry it synthesizes holds \<open>run_state.state.copy()\<close>.\<close>

definition handle_exception_ref ::
  "('v, 'w) env_ref \<Rightarrow> exn \<Rightarrow> string option \<Rightarrow> addr run_state \<Rightarrow> 'v dict_heap \<Rightarrow> 'w
     \<Rightarrow> addr run_state \<times> 'v dict_heap" where
  "handle_exception_ref E e cur rs H w =
     (let rs1 = rs\<lparr>status := ''failed'', error := Some (str_exn e), current_node := None\<rparr> in
      if log rs1 \<noteq> [] then
        (rs1\<lparr>log := butlast (log rs1) @ [(last (log rs1))\<lparr>entry_status := ''error''\<rparr>]\<rparr>, H)
      else
        (let (snapshot, H1) = dict_copy H (state rs1) in
         (rs1\<lparr>log := log rs1 @
                 [\<lparr>node_name = (if truthy cur then the cur else ''unknown''),
                   state_snapshot = snapshot, timestamp = now E w,
                   entry_status = ''error''\<rparr>]\<rparr>, H1)))"

definition finish_run_ref ::
  "('v, 'w) env_ref \<Rightarrow> (addr, 'v dict_heap \<times> 'w) loop_exit
     \<Rightarrow> addr run_state \<times> 'v dict_heap \<times> 'w" where
  "finish_run_ref E ex =
     (case ex of
        Broke rs (H, w) \<Rightarrow> (rs\<lparr>current_node := None\<rparr>, H, w)
      | Exhausted rs (H, w) \<Rightarrow>
          (rs\<lparr>status := ''failed'', error := Some iteration_limit_message,
              current_node := None\<rparr>, H, w)
      | Raised e cur rs (H, w) \<Rightarrow>
          (let (rs', H') = handle_exception_ref E e cur rs H w in (rs', H', w)))"

text \<open>\<open>execute_graph\<close>; \<open>initial_state\<close> is the address of the mapping of the caller.\<close>

definition execute_graph_ref ::
  "('v, 'w) env_ref \<Rightarrow> addr memory_store \<Rightarrow> 'v dict_heap \<Rightarrow> string \<Rightarrow> addr \<Rightarrow> string option
     \<Rightarrow> uuid \<Rightarrow> 'w \<Rightarrow> (exn + addr run_state) \<times> addr memory_store \<times> 'v dict_heap \<times> 'w" where
  "execute_graph_ref E st H gid initial_state start_node new_id w =
     (case get_graph st gid of
        None \<Rightarrow> (Inl (ValueError (''Graph '' @ quoted gid @ '' not found'')), st, H, w)
      | Some g \<Rightarrow>
          (case parse_uuid E gid of
             None \<Rightarrow> (Inl (ValueError ''badly formed hexadecimal UUID string''), st, H, w)
           | Some u \<Rightarrow>
               (let (run_id_str, st1, H1) = create_run_ref st H new_id u initial_state in
                case get_run st1 run_id_str of
                  None \<Rightarrow> (Inl (RuntimeError ''Failed to create run''), st1, H1, w)
                | Some rs \<Rightarrow>
                    if truthy start_node \<and> the start_node \<notin> fst ` set (nodes g) then
                      (Inl (ValueError (''Start node '' @ quoted (the start_node)
                                         @ '' not found in graph'')), st1, H1, w)
                    else if \<not> truthy start_node \<and> nodes g = [] then
                      (Inl (ValueError ''Graph has no nodes''), st1, H1, w)
                    else
                      (let current = (if truthy start_node then the start_node
                                      else fst (hd (nodes g)));
                           (rs', H', w') =
                             finish_run_ref E (while_loop_ref E g 0 0 (Some current) rs H1 w)
                       in (Inr rs', update_run st1 run_id_str rs', H', w')))))"

text \<open>
  \<open>unchanged_but s H H'\<close>: from heap \<open>H\<close> to heap \<open>H'\<close> objects were only added, and every
  object of \<open>H\<close> other than the one at \<open>s\<close> has the bindings it had.
\<close>

definition unchanged_but :: "addr \<Rightarrow> 'v dict_heap \<Rightarrow> 'v dict_heap \<Rightarrow> bool" where
  "unchanged_but s H H' =
     (next_free H \<le> next_free H' \<and> (\<forall>a<next_free H. a \<noteq> s \<longrightarrow> cells H' a = cells H a))"

text \<open>The heap of dictionaries that a call of \<open>execute_graph_ref\<close> leaves.\<close>

definition heap_after :: "'r \<times> 'm \<times> 'v dict_heap \<times> 'w \<Rightarrow> 'v dict_heap" where
  "heap_after r = fst (snd (snd r))"

text \<open>
  Reading a run on dictionary objects for its contents: a node function forgets what it
  left in the dictionary it was handed, and every address is replaced by the bindings that
  the heap holds there.
\<close>

definition forget :: "('v, 'w) node_proc \<Rightarrow> ('v, 'w) node_func" where
  "forget f st w = (case f st w of (r, left, w') \<Rightarrow> (r, w'))"

definition contents_env :: "('v, 'w) env_ref \<Rightarrow> ('v, 'w) env" where
  "contents_env E =
     \<lparr>tools = map_option forget \<circ> tools E,
      import_function = map_sum id forget \<circ> import_function E,
      now = now E,
      parse_uuid = parse_uuid E\<rparr>"

definition deref_entry :: "'v dict_heap \<Rightarrow> addr execution_log_entry \<Rightarrow> 'v pydict execution_log_entry" where
  "deref_entry H e =
     \<lparr>node_name = node_name e, state_snapshot = cells H (state_snapshot e),
      timestamp = timestamp e, entry_status = entry_status e\<rparr>"

definition deref_run :: "'v dict_heap \<Rightarrow> addr run_state \<Rightarrow> 'v pydict run_state" where
  "deref_run H rs =
     \<lparr>run_id = run_id rs, run_graph_id = run_graph_id rs, state = cells H (state rs),
      log = map (deref_entry H) (log rs), status = status rs,
      current_node = current_node rs, error = error rs\<rparr>"

fun deref_flow :: "(addr, 'v dict_heap \<times> 'w) flow \<Rightarrow> ('v pydict, 'w) flow" where
  "deref_flow (Continue lc cur rs hw) = Continue lc cur (deref_run (fst hw) rs) (snd hw)"
| "deref_flow (Break rs hw) = Break (deref_run (fst hw) rs) (snd hw)"
| "deref_flow (Raise e cur rs hw) = Raise e cur (deref_run (fst hw) rs) (snd hw)"

fun deref_exit :: "(addr, 'v dict_heap \<times> 'w) loop_exit \<Rightarrow> ('v pydict, 'w) loop_exit" where
  "deref_exit (Broke rs hw) = Broke (deref_run (fst hw) rs) (snd hw)"
| "deref_exit (Exhausted rs hw) = Exhausted (deref_run (fst hw) rs) (snd hw)"
| "deref_exit (Raised e cur rs hw) = Raised e cur (deref_run (fst hw) rs) (snd hw)"

text \<open>
  \<open>separate H rs\<close>: the state of the run and the snapshots of its log are objects of the
  heap, and no snapshot is the state object.
\<close>

definition separate :: "'v dict_heap \<Rightarrow> addr run_state \<Rightarrow> bool" where
  "separate H rs =
     (state rs < next_free H
      \<and> (\<forall>e\<in>set (log rs). state_snapshot e < next_free H \<and> state_snapshot e \<noteq> state rs))"

text \<open>
  Example: \<open>set_x_proc\<close> returns \<open>{"x": 1}\<close>; \<open>scribble\<close> writes \<open>x = 99\<close> into the
  dictionary it was given and returns nothing. The caller's mapping is the object at
  address 0.
\<close>

definition set_x_proc :: "(int, 'w) node_proc" where
  "set_x_proc st w = (RetDict [''x'' \<mapsto> 1], st, w)"

definition scribble :: "(int, 'w) node_proc" where
  "scribble st w = (RetOther, st(''x'' \<mapsto> 99), w)"

definition demo_env_ref :: "(int, 'w) env_ref" where
  "demo_env_ref =
     \<lparr>tools = [''set_x'' \<mapsto> set_x_proc, ''scribble'' \<mapsto> scribble],
      import_function = (\<lambda>p. Inl (ImportError (''No module named '' @ quoted p))),
      now = (\<lambda>w. 0),
      parse_uuid = Some\<rparr>"

definition two_step_graph :: graph_definition where
  "two_step_graph =
     \<lparr>graph_id = ''g-two'', nodes = [(''a'', ''set_x''), (''b'', ''scribble'')],
      edges = [(''a'', Single ''b'')]\<rparr>"

definition ref_store :: "addr memory_store" where
  "ref_store = \<lparr>graphs = [''g-two'' \<mapsto> two_step_graph], runs = Map.empty\<rparr>"

definition caller_heap :: "int dict_heap" where
  "caller_heap = \<lparr>cells = (\<lambda>a. Map.empty)(0 := [''x'' \<mapsto> 0, ''y'' \<mapsto> 2]), next_free = 1\<rparr>"

section \<open>Auxiliary lemmas\<close>

lemma str_nat_max_loop: "str_nat max_loop_iterations = ''100''"
  by (simp add: max_loop_iterations_def str_nat.simps digit_char_def)

lemma str_nat_max_iter: "str_nat max_iterations = ''1000''"
  by (simp add: max_iterations_def str_nat.simps digit_char_def)

lemma loop_limit_error_eq:
  "loop_limit_error = RuntimeError ''Loop iteration limit (100) exceeded''"
  by (simp add: loop_limit_error_def str_nat_max_loop)

lemma iteration_limit_message_eq:
  "iteration_limit_message = ''Maximum iterations (1000) exceeded''"
  by (simp add: iteration_limit_message_def str_nat_max_iter)

text \<open>Unfolding the loop once.\<close>

lemma while_loop_Continue:
  "it < max_iterations \<Longrightarrow> loop_body E g lc cur rs w = Continue lc' cur' rs' w'
   \<Longrightarrow> while_loop E g it lc cur rs w = while_loop E g (Suc it) lc' cur' rs' w'"
  by (simp add: while_loop.simps)

lemma while_loop_Break:
  "it < max_iterations \<Longrightarrow> loop_body E g lc cur rs w = Break rs' w'
   \<Longrightarrow> while_loop E g it lc cur rs w = Broke rs' w'"
  by (simp add: while_loop.simps)

lemma while_loop_Raise:
  "it < max_iterations \<Longrightarrow> loop_body E g lc cur rs w = Raise e cur' rs' w'
   \<Longrightarrow> while_loop E g it lc cur rs w = Raised e cur' rs' w'"
  by (simp add: while_loop.simps)

lemma while_loop_Exhausted:
  "\<not> it < max_iterations \<Longrightarrow> while_loop E g it lc cur rs w = Exhausted rs w"
  by (simp add: while_loop.simps)

text \<open>The body after a node has run.\<close>

lemma loop_body_ran:
  assumes "map_of (nodes g) c = Some p" "p \<noteq> []" "load_from_path E p = Inr f"
    and "execute_node c f (state rs) w = (Inr (st', na), w1)"
  shows "loop_body E g lc (Some c) rs w =
    (let rs2 = rs\<lparr>current_node := Some c, state := st',
                  log := log rs @ [\<lparr>node_name = c, state_snapshot = st',
                                    timestamp = now E w1, entry_status = ''completed''\<rparr>]\<rparr>
     in if na = Some ''repeat'' then
          (if lc + 1 \<ge> max_loop_iterations then Raise loop_limit_error (Some c) rs2 w1
           else Continue (lc + 1) (Some c) rs2 w1)
        else if truthy na \<and> startswith_goto (the na) then Continue 0 (Some (drop 5 (the na))) rs2 w1
        else if truthy na then Continue 0 na rs2 w1
        else (case map_of (edges g) c of
                None \<Rightarrow> Break (rs2\<lparr>status := ''completed''\<rparr>) w1
              | Some (Single n) \<Rightarrow> Continue 0 (Some n) rs2 w1
              | Some (Branch []) \<Rightarrow> Break (rs2\<lparr>status := ''completed''\<rparr>) w1
              | Some (Branch (n # ns)) \<Rightarrow> Continue 0 (Some n) rs2 w1))"
  using assms
  by (simp add: loop_body_def Let_def get_next_nodes_def
      split: option.splits edge_target.splits list.splits)

lemma loop_body_Continue_log:
  assumes "loop_body E g lc cur rs w = Continue lc' cur' rs' w'"
  shows "\<exists>c e. cur = Some c \<and> log rs' = log rs @ [e] \<and> node_name e = c
           \<and> state_snapshot e = state rs' \<and> entry_status e = ''completed''
           \<and> status rs' = status rs \<and> error rs' = error rs"
  using assms
  by (auto simp: loop_body_def Let_def get_next_nodes_def
      split: option.splits if_splits sum.splits prod.splits edge_target.splits list.splits
        exn.splits)

lemma loop_body_log_extends:
  "\<exists>new. log (flow_state (loop_body E g lc cur rs w)) = log rs @ new \<and> length new \<le> 1"
  by (auto simp: loop_body_def Let_def get_next_nodes_def
      split: option.splits if_splits sum.splits prod.splits edge_target.splits list.splits
        exn.splits)

text \<open>The log only grows along the loop.\<close>

lemma while_loop_log_extends:
  "\<exists>new. log (exit_state (while_loop E g it lc cur rs w)) = log rs @ new"
proof (induction E g it lc cur rs w rule: while_loop.induct)
  case (1 E g it lc cur rs w)
  show ?case
  proof (cases "it < max_iterations")
    case False
    then show ?thesis by (simp add: while_loop_Exhausted)
  next
    case True
    obtain new where new: "log (flow_state (loop_body E g lc cur rs w)) = log rs @ new"
      using loop_body_log_extends [of E g lc cur rs w] by auto
    show ?thesis
    proof (cases "loop_body E g lc cur rs w")
      case (Continue lc' cur' rs1 w1)
      from "1.IH" [OF True Continue] obtain new' where
        "log (exit_state (while_loop E g (it + 1) lc' cur' rs1 w1)) = log rs1 @ new'" by blast
      with new Continue True show ?thesis
        by (simp add: while_loop_Continue)
    next
      case (Break rs1 w1)
      with new True show ?thesis by (simp add: while_loop_Break)
    next
      case (Raise e cur' rs1 w1)
      with new True show ?thesis by (simp add: while_loop_Raise)
    qed
  qed
qed

text \<open>Running out of iterations: every remaining iteration has appended one completed entry.\<close>

lemma while_loop_Exhausted_log:
  assumes "while_loop E g it lc cur rs w = Exhausted rs' w'" "it \<le> max_iterations"
  shows "\<exists>new. log rs' = log rs @ new \<and> length new = max_iterations - it
           \<and> (\<forall>e\<in>set new. entry_status e = ''completed'')
           \<and> status rs' = status rs \<and> error rs' = error rs"
  using assms
proof (induction E g it lc cur rs w rule: while_loop.induct)
  case (1 E g it lc cur rs w)
  show ?case
  proof (cases "it < max_iterations")
    case False
    with "1.prems" show ?thesis by (simp add: while_loop_Exhausted)
  next
    case True
    show ?thesis
    proof (cases "loop_body E g lc cur rs w")
      case (Continue lc' cur' rs1 w1)
      with True "1.prems" have ex: "while_loop E g (it + 1) lc' cur' rs1 w1 = Exhausted rs' w'"
        by (simp add: while_loop_Continue)
      from True have "it + 1 \<le> max_iterations" by simp
      from "1.IH" [OF True Continue ex this] obtain new where new:
        "log rs' = log rs1 @ new" "length new = max_iterations - (it + 1)"
        "\<forall>e\<in>set new. entry_status e = ''completed''"
        "status rs' = status rs1" "error rs' = error rs1" by blast
      from loop_body_Continue_log [OF Continue] obtain e where e:
        "log rs1 = log rs @ [e]" "entry_status e = ''completed''"
        "status rs1 = status rs" "error rs1 = error rs" by blast
      have "log rs' = log rs @ (e # new)" using new e by simp
      moreover have "length (e # new) = max_iterations - it" using new True by simp
      moreover have "\<forall>x\<in>set (e # new). entry_status x = ''completed''" using new e by simp
      ultimately show ?thesis using new e by metis
    next
      case (Break rs1 w1)
      with True "1.prems" show ?thesis by (simp add: while_loop_Break)
    next
      case (Raise e cur' rs1 w1)
      with True "1.prems" show ?thesis by (simp add: while_loop_Raise)
    qed
  qed
qed

text \<open>A loop whose body always continues inside a set of nodes runs out of iterations.\<close>

lemma always_continue_exhausts:
  assumes step: "\<And>c lc rs w. c \<in> S \<Longrightarrow>
      \<exists>lc' c' rs' w'. loop_body E g lc (Some c) rs w = Continue lc' (Some c') rs' w' \<and> c' \<in> S"
    and "c \<in> S"
  shows "\<exists>rs' w'. while_loop E g it lc (Some c) rs w = Exhausted rs' w'"
  using \<open>c \<in> S\<close>
proof (induction "max_iterations - it" arbitrary: it lc c rs w)
  case 0
  then have "\<not> it < max_iterations" by simp
  then show ?case by (simp add: while_loop_Exhausted)
next
  case (Suc n)
  then have lt: "it < max_iterations" by simp
  from step [OF \<open>c \<in> S\<close>] obtain lc' c' rs1 w1 where
    b: "loop_body E g lc (Some c) rs w = Continue lc' (Some c') rs1 w1" and c': "c' \<in> S"
    by blast
  have "n = max_iterations - Suc it" using Suc.hyps(2) by simp
  from Suc.hyps(1) [OF this c'] obtain rs' w' where
    "while_loop E g (Suc it) lc' (Some c') rs1 w1 = Exhausted rs' w'" by blast
  with lt b show ?case by (simp add: while_loop_Continue)
qed

text \<open>A streak of repeats that reaches the cap raises the loop-limit error.\<close>

lemma streak_hits_loop_limit:
  assumes "map_of (nodes g) c = Some p" "p \<noteq> []" "load_from_path E p = Inr f"
    and "repeat_streak c f k (state rs) w" "0 < k" "lc + k = max_loop_iterations"
    and "it + k \<le> max_iterations"
  shows "\<exists>rs' w' new. while_loop E g it lc (Some c) rs w = Raised loop_limit_error (Some c) rs' w'
           \<and> log rs' = log rs @ new \<and> length new = k"
  using assms(4-)
proof (induction k arbitrary: it lc rs w)
  case 0
  then show ?case by simp
next
  case (Suc k)
  from Suc.prems(1) obtain st' w1 where
    ex: "execute_node c f (state rs) w = (Inr (st', Some ''repeat''), w1)"
    and rest: "repeat_streak c f k st' w1"
    by (auto split: prod.splits sum.splits)
  define rs2 where "rs2 = rs\<lparr>current_node := Some c, state := st',
                  log := log rs @ [\<lparr>node_name = c, state_snapshot = st',
                                    timestamp = now E w1, entry_status = ''completed''\<rparr>]\<rparr>"
  have lt: "it < max_iterations" using Suc.prems(4) by simp
  show ?case
  proof (cases "k = 0")
    case True
    with Suc.prems(3) have "lc + 1 \<ge> max_loop_iterations" by simp
    then have "loop_body E g lc (Some c) rs w = Raise loop_limit_error (Some c) rs2 w1"
      using loop_body_ran [OF assms(1-3) ex, of lc] by (simp add: rs2_def Let_def)
    then have "while_loop E g it lc (Some c) rs w = Raised loop_limit_error (Some c) rs2 w1"
      using lt by (simp add: while_loop_Raise)
    moreover have "log rs2 = log rs @ [\<lparr>node_name = c, state_snapshot = st',
                                    timestamp = now E w1, entry_status = ''completed''\<rparr>]"
      by (simp add: rs2_def)
    ultimately show ?thesis using True by auto
  next
    case False
    with Suc.prems(3) have "\<not> lc + 1 \<ge> max_loop_iterations" by simp
    then have "loop_body E g lc (Some c) rs w = Continue (lc + 1) (Some c) rs2 w1"
      using loop_body_ran [OF assms(1-3) ex, of lc] by (simp add: rs2_def Let_def)
    then have w: "while_loop E g it lc (Some c) rs w = while_loop E g (Suc it) (lc + 1) (Some c) rs2 w1"
      using lt by (simp add: while_loop_Continue)
    have "repeat_streak c f k (state rs2) w1" using rest by (simp add: rs2_def)
    moreover have "0 < k" using False by simp
    moreover have "(lc + 1) + k = max_loop_iterations" using Suc.prems(3) by simp
    moreover have "Suc it + k \<le> max_iterations" using Suc.prems(4) by simp
    ultimately obtain rs' w' new where
      "while_loop E g (Suc it) (lc + 1) (Some c) rs2 w1 = Raised loop_limit_error (Some c) rs' w'"
      "log rs' = log rs2 @ new" "length new = k"
      using Suc.IH by blast
    then show ?thesis using w by (auto simp: rs2_def)
  qed
qed

text \<open>Counting wrappers add one to the counter for each invocation.\<close>

lemma load_from_path_counting:
  "load_from_path (counting_env E) p = map_sum id counting (load_from_path E p)"
  by (simp add: load_from_path_def counting_env_def split: option.splits sum.splits)

lemma returns_repeat_streak:
  "returns_repeat f k st w \<Longrightarrow> repeat_streak c f k st w"
proof (induction k arbitrary: w)
  case 0
  then show ?case by simp
next
  case (Suc k)
  from Suc.prems obtain w' where f: "f st w = (RetStr ''repeat'', w')" and r: "returns_repeat f k st w'"
    by (auto split: prod.splits py_result.splits)
  from f have "execute_node c f st w = (Inr (st, Some ''repeat''), w')"
    by (simp add: execute_node_def)
  with Suc.IH [OF r] show ?case by simp
qed

lemma returns_repeat_repeating: "returns_repeat repeating k st w"
  by (induction k) (simp_all add: repeating_def)

lemma handle_exception_nonempty:
  assumes "log rs = xs @ [x]"
  shows "handle_exception E e cur rs w =
     rs\<lparr>status := ''failed'', error := Some (str_exn e), current_node := None,
        log := xs @ [x\<lparr>entry_status := ''error''\<rparr>]\<rparr>"
  using assms by (simp add: handle_exception_def Let_def)

lemma finish_run_Raised:
  assumes "log rs \<noteq> []"
  shows "\<exists>rs'. finish_run E (Raised e cur rs w) = (rs', w) \<and> status rs' = ''failed''
      \<and> error rs' = Some (str_exn e) \<and> current_node rs' = None \<and> length (log rs') = length (log rs)
      \<and> log rs' \<noteq> [] \<and> entry_status (last (log rs')) = ''error''
      \<and> map state_snapshot (log rs') = map state_snapshot (log rs)
      \<and> map node_name (log rs') = map node_name (log rs)"
proof -
  from assms obtain xs x where l: "log rs = xs @ [x]" by (cases "log rs" rule: rev_cases) auto
  show ?thesis
    by (simp add: finish_run_def handle_exception_nonempty [OF l] l)
qed

lemma execute_graph_started:
  assumes "get_graph st gid = Some g" "parse_uuid E gid = Some u"
    and "\<not> (truthy start \<and> the start \<notin> fst ` set (nodes g))"
    and "\<not> (\<not> truthy start \<and> nodes g = [])"
    and "finish_run E (while_loop E g 0 0 (Some (first_node g start)) (fresh_run new_id u init) w)
           = (rs', w')"
  shows "execute_graph E st gid init start new_id w =
     (Inr rs', update_run (st\<lparr>runs := (runs st)(new_id \<mapsto> fresh_run new_id u init)\<rparr>) new_id rs', w')"
  using assms
  by (auto simp: execute_graph_def create_run_def get_run_def fresh_run_def first_node_def Let_def)

lemma execute_node_no_control_flow:
  "no_control_flow (fst (f st w)) \<Longrightarrow> \<exists>st'. execute_node c f st w = (Inr (st', None), snd (f st w))"
  by (cases "f st w"; cases "fst (f st w)") (auto simp: execute_node_def)

lemma cyclic_within_step:
  assumes "cyclic_within E g S" "c \<in> S"
  shows "\<exists>lc' c' rs' w'. loop_body E g lc (Some c) rs w = Continue lc' (Some c') rs' w' \<and> c' \<in> S"
proof -
  from assms have "\<exists>p f. map_of (nodes g) c = Some p \<and> p \<noteq> [] \<and> load_from_path E p = Inr f
        \<and> (\<forall>st w. no_control_flow (fst (f st w)))
        \<and> (\<exists>c'\<in>S. map_of (edges g) c = Some (Single c')
                \<or> (\<exists>ns. map_of (edges g) c = Some (Branch (c' # ns))))"
    by (simp add: cyclic_within_def)
  then obtain p f where n: "map_of (nodes g) c = Some p" "p \<noteq> []" "load_from_path E p = Inr f"
    and ncf: "\<forall>st w. no_control_flow (fst (f st w))"
    and e': "\<exists>c'\<in>S. map_of (edges g) c = Some (Single c')
                \<or> (\<exists>ns. map_of (edges g) c = Some (Branch (c' # ns)))"
    by (elim exE conjE)
  from e' obtain c' where c': "c' \<in> S"
    and e: "map_of (edges g) c = Some (Single c') \<or> (\<exists>ns. map_of (edges g) c = Some (Branch (c' # ns)))"
    by (elim bexE)
  from ncf have "no_control_flow (fst (f (state rs) w))" by simp
  with execute_node_no_control_flow [of f "state rs" w c]
  have "\<exists>st'. execute_node c f (state rs) w = (Inr (st', None), snd (f (state rs) w))"
    by simp
  then obtain st' where ex: "execute_node c f (state rs) w = (Inr (st', None), snd (f (state rs) w))"
    by (elim exE)
  from e show ?thesis
  proof
    assume "map_of (edges g) c = Some (Single c')"
    with loop_body_ran [OF n ex, of lc] c' show ?thesis by (simp add: Let_def)
  next
    assume "\<exists>ns. map_of (edges g) c = Some (Branch (c' # ns))"
    then obtain ns where "map_of (edges g) c = Some (Branch (c' # ns))" by (elim exE)
    with loop_body_ran [OF n ex, of lc] c' show ?thesis by (simp add: Let_def)
  qed
qed

lemma always_continue_run:
  assumes step: "\<And>c lc rs w. c \<in> S \<Longrightarrow>
      \<exists>lc' c' rs' w'. loop_body E g lc (Some c) rs w = Continue lc' (Some c') rs' w' \<and> c' \<in> S"
    and "c \<in> S"
  shows "\<exists>rs' w' new. finish_run E (while_loop E g 0 0 (Some c) rs w) = (rs', w')
      \<and> status rs' = ''failed'' \<and> error rs' = Some ''Maximum iterations (1000) exceeded''
      \<and> current_node rs' = None \<and> log rs' = log rs @ new \<and> length new = 1000
      \<and> (\<forall>e\<in>set new. entry_status e = ''completed'')"
proof -
  from always_continue_exhausts [of S E g c 0 0 rs w] assms obtain rs1 w1 where
    ex: "while_loop E g 0 0 (Some c) rs w = Exhausted rs1 w1" by blast
  from while_loop_Exhausted_log [OF ex] obtain new where
    "log rs1 = log rs @ new" "length new = max_iterations"
    "\<forall>e\<in>set new. entry_status e = ''completed''" by auto
  then show ?thesis using ex
    by (simp add: finish_run_def iteration_limit_message_eq max_iterations_def)
qed

lemma finish_run_Raised_any:
  "\<exists>rs'. finish_run E (Raised e cur rs w) = (rs', w) \<and> status rs' = ''failed''
      \<and> error rs' = Some (str_exn e) \<and> current_node rs' = None
      \<and> log rs' \<noteq> [] \<and> entry_status (last (log rs')) = ''error''"
proof (cases "log rs = []")
  case True
  then show ?thesis by (simp add: finish_run_def handle_exception_def Let_def)
next
  case False
  from finish_run_Raised [OF this, of E e cur w] show ?thesis by blast
qed


lemma cyclic_run:
  assumes "get_graph st gid = Some g" "parse_uuid E gid = Some u" "cyclic_within E g S"
    and "(truthy start \<and> the start \<in> S) \<or> (\<not> truthy start \<and> nodes g \<noteq> [] \<and> fst (hd (nodes g)) \<in> S)"
  shows "\<exists>rs st' w'. execute_graph E st gid init start new_id w = (Inr rs, st', w')
      \<and> status rs = ''failed'' \<and> error rs = Some ''Maximum iterations (1000) exceeded''
      \<and> current_node rs = None \<and> length (log rs) = 1000
      \<and> (\<forall>e\<in>set (log rs). entry_status e = ''completed'')"
proof -
  from assms(4) have inS: "first_node g start \<in> S" by (auto simp: first_node_def)
  have declared: "c \<in> fst ` set (nodes g)" if "c \<in> S" for c
  proof -
    from assms(3) that obtain p where "map_of (nodes g) c = Some p"
      unfolding cyclic_within_def by fast
    then have "(c, p) \<in> set (nodes g)" by (rule map_of_SomeD)
    then show ?thesis by force
  qed
  have a3: "\<not> (truthy start \<and> the start \<notin> fst ` set (nodes g))"
    using assms(4) declared by auto
  have a4: "\<not> (\<not> truthy start \<and> nodes g = [])" using assms(4) by auto
  have step: "\<And>c lc rs w. c \<in> S \<Longrightarrow>
      \<exists>lc' c' rs' w'. loop_body E g lc (Some c) rs w = Continue lc' (Some c') rs' w' \<and> c' \<in> S"
    using cyclic_within_step [OF assms(3)] by simp
  from always_continue_run [of S E g "first_node g start" "fresh_run new_id u init" w, OF step inS]
  obtain rs' w' new where f: "finish_run E (while_loop E g 0 0 (Some (first_node g start))
        (fresh_run new_id u init) w) = (rs', w')"
    and p: "status rs' = ''failed''" "error rs' = Some ''Maximum iterations (1000) exceeded''"
      "current_node rs' = None" "log rs' = log (fresh_run new_id u init) @ new" "length new = 1000"
      "\<forall>e\<in>set new. entry_status e = ''completed''"
    by blast
  from p have "length (log rs') = 1000" "\<forall>e\<in>set (log rs'). entry_status e = ''completed''"
    by (simp_all add: fresh_run_def)
  with execute_graph_started [OF assms(1,2) a3 a4 f] p show ?thesis by simp
qed

lemma self_cycle_is_cyclic: "cyclic_within demo_env self_cycle_graph {''a''}"
  by (simp add: cyclic_within_def self_cycle_graph_def load_from_path_def demo_env_def noop_def)



lemma jump_to_repeat_streak:
  "repeat_streak c (jump_to ''repeat'') k st w"
  by (induction k) (simp_all add: execute_node_def jump_to_def startswith_goto_def)

lemma heap_run:
  "execute_graph heap_env heap_store ''g-heap'' [''xs'' \<mapsto> VRef 0] None ''run-1'' empty_heap
   = (Inr \<lparr>run_id = ''run-1'', run_graph_id = ''g-heap'', state = [''xs'' \<mapsto> VRef 0],
           log = [\<lparr>node_name = ''a'', state_snapshot = [''xs'' \<mapsto> VRef 0], timestamp = 0,
                   entry_status = ''completed''\<rparr>,
                  \<lparr>node_name = ''b'', state_snapshot = [''xs'' \<mapsto> VRef 0], timestamp = 0,
                   entry_status = ''completed''\<rparr>],
           status = ''completed'', current_node = None, error = None\<rparr>,
      heap_store\<lparr>runs := [''run-1'' \<mapsto>
          \<lparr>run_id = ''run-1'', run_graph_id = ''g-heap'', state = [''xs'' \<mapsto> VRef 0],
           log = [\<lparr>node_name = ''a'', state_snapshot = [''xs'' \<mapsto> VRef 0], timestamp = 0,
                   entry_status = ''completed''\<rparr>,
                  \<lparr>node_name = ''b'', state_snapshot = [''xs'' \<mapsto> VRef 0], timestamp = 0,
                   entry_status = ''completed''\<rparr>],
           status = ''completed'', current_node = None, error = None\<rparr>]\<rparr>,
      empty_heap(0 := [1]))"
  by (simp add: execute_graph_def get_graph_def heap_store_def heap_env_def create_run_def
      get_run_def update_run_def heap_graph_def while_loop.simps max_iterations_def
      loop_body_def load_from_path_def execute_node_def noop_def append_to_def get_next_nodes_def
      finish_run_def empty_heap_def Let_def)

lemma execute_node_counting_eq:
  "execute_node c (counting f) st (n, w)
     = (fst (execute_node c f st w), (Suc n, snd (execute_node c f st w)))"
  by (cases "f st w"; cases "fst (f st w)")
     (auto simp: execute_node_def counting_def)

lemma now_counting: "now (counting_env E) (k, w) = now E w"
  by (simp add: counting_env_def)

lemma loop_body_counting:
  "\<exists>k\<le>Suc n. loop_body (counting_env E) g lc cur rs (n, w)
      = flow_with_count k (loop_body E g lc cur rs w)"
proof (cases cur)
  case None
  then have "loop_body (counting_env E) g lc cur rs (n, w)
      = flow_with_count n (loop_body E g lc cur rs w)" by (simp add: loop_body_def)
  then show ?thesis by (intro exI [of _ n]) simp
next
  case (Some c)
  show ?thesis
  proof (cases "map_of (nodes g) c")
    case None
    with Some have "loop_body (counting_env E) g lc cur rs (n, w)
      = flow_with_count n (loop_body E g lc cur rs w)" by (simp add: loop_body_def)
    then show ?thesis by (intro exI [of _ n]) simp
  next
    case p: (Some p)
    show ?thesis
    proof (cases "p = []")
      case True
      with Some p have "loop_body (counting_env E) g lc cur rs (n, w)
        = flow_with_count n (loop_body E g lc cur rs w)" by (simp add: loop_body_def)
      then show ?thesis by (intro exI [of _ n]) simp
    next
      case False
      show ?thesis
      proof (cases "load_from_path E p")
        case (Inl m)
        with Some p False have "loop_body (counting_env E) g lc cur rs (n, w)
          = flow_with_count n (loop_body E g lc cur rs w)"
          by (simp add: loop_body_def load_from_path_counting split: exn.splits)
        then show ?thesis by (intro exI [of _ n]) simp
      next
        case (Inr f)
        then have lc: "load_from_path (counting_env E) p = Inr (counting f)"
          by (simp add: load_from_path_counting)
        obtain r w1 where ex: "execute_node c f (state rs) w = (r, w1)"
          by (cases "execute_node c f (state rs) w")
        then have exc: "execute_node c (counting f) (state rs) (n, w) = (r, (Suc n, w1))"
          by (simp add: execute_node_counting_eq)
        have "loop_body (counting_env E) g lc cur rs (n, w)
          = flow_with_count (Suc n) (loop_body E g lc cur rs w)"
        proof (cases r)
          case (Inl e)
          with Some p False Inr lc ex exc show ?thesis by (simp add: loop_body_def)
        next
          case r: (Inr sa)
          obtain st' na where sa: "sa = (st', na)" by (cases sa)
          from ex r sa have 1: "execute_node c f (state rs) w = (Inr (st', na), w1)" by simp
          from exc r sa have 2: "execute_node c (counting f) (state rs) (n, w)
              = (Inr (st', na), (Suc n, w1))" by simp
          show ?thesis
            unfolding Some loop_body_ran [OF p False Inr 1] loop_body_ran [OF p False lc 2]
            by (simp add: Let_def now_counting split: option.splits edge_target.splits list.splits)
        qed
        then show ?thesis by (intro exI [of _ "Suc n"]) simp
      qed
    qed
  qed
qed

lemma while_loop_counting:
  "\<exists>k\<le>n + (max_iterations - it). while_loop (counting_env E) g it lc cur rs (n, w)
      = exit_with_count k (while_loop E g it lc cur rs w)"
proof (induction "max_iterations - it" arbitrary: it lc cur rs n w)
  case 0
  then have "\<not> it < max_iterations" by simp
  then have "while_loop (counting_env E) g it lc cur rs (n, w)
      = exit_with_count n (while_loop E g it lc cur rs w)" by (simp add: while_loop_Exhausted)
  then show ?case by (intro exI [of _ n]) simp
next
  case (Suc j)
  then have lt: "it < max_iterations" by simp
  have j: "j = max_iterations - Suc it" using Suc.hyps(2) by simp
  obtain k where k: "k \<le> Suc n"
    and b: "loop_body (counting_env E) g lc cur rs (n, w) = flow_with_count k (loop_body E g lc cur rs w)"
    using loop_body_counting [of n E g lc cur rs w] by (elim exE conjE)
  show ?case
  proof (cases "loop_body E g lc cur rs w")
    case (Continue lc' cur' rs1 w1)
    have "\<exists>k'\<le>k + (max_iterations - Suc it).
        while_loop (counting_env E) g (Suc it) lc' cur' rs1 (k, w1)
          = exit_with_count k' (while_loop E g (Suc it) lc' cur' rs1 w1)"
      by (rule Suc.hyps(1) [OF j])
    then obtain k' where
      k': "k' \<le> k + (max_iterations - Suc it)"
      and w: "while_loop (counting_env E) g (Suc it) lc' cur' rs1 (k, w1)
          = exit_with_count k' (while_loop E g (Suc it) lc' cur' rs1 w1)"
      by (elim exE conjE)
    from b Continue lt w have "while_loop (counting_env E) g it lc cur rs (n, w)
      = exit_with_count k' (while_loop E g it lc cur rs w)"
      by (simp add: while_loop_Continue)
    moreover from k k' lt have "k' \<le> n + (max_iterations - it)" by simp
    ultimately show ?thesis by (intro exI [of _ k']) simp
  next
    case (Break rs1 w1)
    with b lt have "while_loop (counting_env E) g it lc cur rs (n, w)
      = exit_with_count k (while_loop E g it lc cur rs w)" by (simp add: while_loop_Break)
    moreover from k lt have "k \<le> n + (max_iterations - it)" by simp
    ultimately show ?thesis by (intro exI [of _ k]) simp
  next
    case (Raise e cur' rs1 w1)
    with b lt have "while_loop (counting_env E) g it lc cur rs (n, w)
      = exit_with_count k (while_loop E g it lc cur rs w)" by (simp add: while_loop_Raise)
    moreover from k lt have "k \<le> n + (max_iterations - it)" by simp
    ultimately show ?thesis by (intro exI [of _ k]) simp
  qed
qed

lemma finish_run_counting:
  "finish_run (counting_env E) (exit_with_count k ex)
     = (fst (finish_run E ex), (k, snd (finish_run E ex)))"
  by (cases ex) (simp_all add: finish_run_def handle_exception_def now_counting Let_def)

lemma execute_graph_counting:
  "\<exists>k\<le>max_iterations. execute_graph (counting_env E) st gid init start new_id (0, w)
     = (fst (execute_graph E st gid init start new_id w),
        fst (snd (execute_graph E st gid init start new_id w)),
        (k, snd (snd (execute_graph E st gid init start new_id w))))"
proof -
  have pu: "parse_uuid (counting_env E) gid = parse_uuid E gid" by (simp add: counting_env_def)
  show ?thesis
  proof (cases "get_graph st gid")
    case None
    then have "execute_graph (counting_env E) st gid init start new_id (0, w)
     = (fst (execute_graph E st gid init start new_id w),
        fst (snd (execute_graph E st gid init start new_id w)),
        (0, snd (snd (execute_graph E st gid init start new_id w))))"
      by (simp add: execute_graph_def)
    then show ?thesis by (intro exI [of _ 0]) simp
  next
    case (Some g)
    show ?thesis
    proof (cases "parse_uuid E gid")
      case None
      with Some pu have "execute_graph (counting_env E) st gid init start new_id (0, w)
       = (fst (execute_graph E st gid init start new_id w),
          fst (snd (execute_graph E st gid init start new_id w)),
          (0, snd (snd (execute_graph E st gid init start new_id w))))"
        by (simp add: execute_graph_def)
      then show ?thesis by (intro exI [of _ 0]) simp
    next
      case u: (Some u)
      show ?thesis
      proof (cases "(truthy start \<and> the start \<notin> fst ` set (nodes g)) \<or> (\<not> truthy start \<and> nodes g = [])")
        case True
        with Some u pu have "execute_graph (counting_env E) st gid init start new_id (0, w)
         = (fst (execute_graph E st gid init start new_id w),
            fst (snd (execute_graph E st gid init start new_id w)),
            (0, snd (snd (execute_graph E st gid init start new_id w))))"
          by (auto simp: execute_graph_def create_run_def get_run_def Let_def)
        then show ?thesis by (intro exI [of _ 0]) simp
      next
        case False
        then have a3: "\<not> (truthy start \<and> the start \<notin> fst ` set (nodes g))"
          and a4: "\<not> (\<not> truthy start \<and> nodes g = [])" by simp_all
        let ?ex = "while_loop E g 0 0 (Some (first_node g start)) (fresh_run new_id u init) w"
        obtain k where k: "k \<le> max_iterations"
          and wl: "while_loop (counting_env E) g 0 0 (Some (first_node g start))
              (fresh_run new_id u init) (0, w) = exit_with_count k ?ex"
          using while_loop_counting [of 0 0 E g 0 "Some (first_node g start)"
              "fresh_run new_id u init" w] by (elim exE conjE) simp
        have f1: "finish_run E ?ex = (fst (finish_run E ?ex), snd (finish_run E ?ex))"
          by (rule prod.collapse [symmetric])
        have f2: "finish_run (counting_env E) (while_loop (counting_env E) g 0 0
              (Some (first_node g start)) (fresh_run new_id u init) (0, w))
            = (fst (finish_run E ?ex), (k, snd (finish_run E ?ex)))"
          by (simp add: wl finish_run_counting)
        from u pu have u': "parse_uuid (counting_env E) gid = Some u" by simp
        have "execute_graph (counting_env E) st gid init start new_id (0, w)
         = (fst (execute_graph E st gid init start new_id w),
            fst (snd (execute_graph E st gid init start new_id w)),
            (k, snd (snd (execute_graph E st gid init start new_id w))))"
          by (simp add: execute_graph_started [OF Some u a3 a4 f1]
              execute_graph_started [OF Some u' a3 a4 f2])
        with k show ?thesis by (intro exI [of _ k]) simp
      qed
    qed
  qed
qed

text \<open>Frames of the engine on dictionary objects.\<close>

lemma unchanged_but_refl: "unchanged_but s H H"
  by (simp add: unchanged_but_def)

lemma unchanged_but_trans:
  "unchanged_but s H H1 \<Longrightarrow> unchanged_but s H1 H2 \<Longrightarrow> unchanged_but s H H2"
  by (auto simp: unchanged_but_def)

lemma dict_copy_props:
  assumes "dict_copy H a = (n, H')"
  shows "n = next_free H" "next_free H' = Suc (next_free H)" "cells H' n = cells H a"
    "\<And>b. b \<noteq> next_free H \<Longrightarrow> cells H' b = cells H b" "unchanged_but s H H'"
  using assms by (auto simp: dict_copy_def unchanged_but_def)

lemma execute_node_ref_frame:
  assumes "execute_node_ref c f s H w = (r, H', w')"
  shows "unchanged_but s H H'" "next_free H' = Suc (next_free H)"
    "\<And>s' na. r = Inr (s', na) \<Longrightarrow> s' = s"
  using assms
  by (auto simp: execute_node_ref_def dict_copy_def dict_assign_def dict_update_def
      unchanged_but_def Let_def split: prod.splits py_result.splits if_splits)

text \<open>The body after a node has run, on dictionary objects.\<close>

lemma loop_body_ref_ran:
  assumes "map_of (nodes g) c = Some p" "p \<noteq> []" "load_from_path E p = Inr f"
    and "execute_node_ref c f (state rs) H w = (Inr (s', na), H1, w1)"
  shows "loop_body_ref E g lc (Some c) rs H w =
    (let H2 = snd (dict_copy H1 s');
         rs2 = rs\<lparr>current_node := Some c,
                  log := log rs @ [\<lparr>node_name = c, state_snapshot = next_free H1,
                                    timestamp = now E w1, entry_status = ''completed''\<rparr>]\<rparr>
     in if na = Some ''repeat'' then
          (if lc + 1 \<ge> max_loop_iterations then Raise loop_limit_error (Some c) rs2 (H2, w1)
           else Continue (lc + 1) (Some c) rs2 (H2, w1))
        else if truthy na \<and> startswith_goto (the na) then
          Continue 0 (Some (drop 5 (the na))) rs2 (H2, w1)
        else if truthy na then Continue 0 na rs2 (H2, w1)
        else (case map_of (edges g) c of
                None \<Rightarrow> Break (rs2\<lparr>status := ''completed''\<rparr>) (H2, w1)
              | Some (Single n) \<Rightarrow> Continue 0 (Some n) rs2 (H2, w1)
              | Some (Branch []) \<Rightarrow> Break (rs2\<lparr>status := ''completed''\<rparr>) (H2, w1)
              | Some (Branch (n # ns)) \<Rightarrow> Continue 0 (Some n) rs2 (H2, w1)))"
  using assms
  by (simp add: loop_body_ref_def Let_def get_next_nodes_def dict_copy_def
      split: option.splits edge_target.splits list.splits)


lemma loop_body_ref_ran_shape:
  assumes "map_of (nodes g) c = Some p" "p \<noteq> []" "load_from_path E p = Inr f"
    and "execute_node_ref c f (state rs) H w = (Inr (s', na), H1, w1)"
  shows "flow_world (loop_body_ref E g lc (Some c) rs H w) = (snd (dict_copy H1 s'), w1)"
    and "state (flow_state (loop_body_ref E g lc (Some c) rs H w)) = state rs"
    and "log (flow_state (loop_body_ref E g lc (Some c) rs H w))
          = log rs @ [\<lparr>node_name = c, state_snapshot = next_free H1,
                        timestamp = now E w1, entry_status = ''completed''\<rparr>]"
  unfolding loop_body_ref_ran [OF assms]
  by (simp_all add: Let_def split: option.splits edge_target.splits list.splits)

lemma loop_body_ref_frame:
  "unchanged_but (state rs) H (fst (flow_world (loop_body_ref E g lc cur rs H w)))
   \<and> state (flow_state (loop_body_ref E g lc cur rs H w)) = state rs
   \<and> (\<exists>new. log (flow_state (loop_body_ref E g lc cur rs H w)) = log rs @ new
         \<and> (\<forall>e\<in>set new. next_free H \<le> state_snapshot e
               \<and> state_snapshot e < next_free (fst (flow_world (loop_body_ref E g lc cur rs H w)))))"
proof (cases cur)
  case None
  then show ?thesis by (simp add: loop_body_ref_def unchanged_but_refl)
next
  case (Some c)
  show ?thesis
  proof (cases "map_of (nodes g) c")
    case None
    with Some show ?thesis by (simp add: loop_body_ref_def unchanged_but_refl)
  next
    case p: (Some p)
    show ?thesis
    proof (cases "p = []")
      case True
      with Some p show ?thesis by (simp add: loop_body_ref_def unchanged_but_refl)
    next
      case False
      show ?thesis
      proof (cases "load_from_path E p")
        case (Inl e)
        with Some p False show ?thesis
          by (cases e) (simp_all add: loop_body_ref_def unchanged_but_refl)
      next
        case (Inr f)
        obtain r H1 w1 where ex: "execute_node_ref c f (state rs) H w = (r, H1, w1)"
          by (cases "execute_node_ref c f (state rs) H w")
        note fr = execute_node_ref_frame [OF ex]
        show ?thesis
        proof (cases r)
          case (Inl e)
          with Some p False Inr ex fr(1) show ?thesis by (simp add: loop_body_ref_def)
        next
          case r: (Inr sa)
          obtain s' na where sa: "sa = (s', na)" by (cases sa)
          with r fr(3) have s': "s' = state rs" by simp
          from ex r sa have ex': "execute_node_ref c f (state rs) H w = (Inr (s', na), H1, w1)"
            by simp
          note sh = loop_body_ref_ran_shape [OF p False Inr ex', of lc]
          have c2: "unchanged_but (state rs) H1 (snd (dict_copy H1 s'))"
            by (rule dict_copy_props(5) [of H1 s']) (rule prod.collapse [symmetric])
          have nf: "next_free (snd (dict_copy H1 s')) = Suc (next_free H1)"
            by (simp add: dict_copy_def)
          from unchanged_but_trans [OF fr(1) c2] sh nf fr(2) Some show ?thesis by simp
        qed
      qed
    qed
  qed
qed


lemma while_loop_ref_Continue:
  "it < max_iterations \<Longrightarrow> loop_body_ref E g lc cur rs H w = Continue lc' cur' rs' (H', w')
   \<Longrightarrow> while_loop_ref E g it lc cur rs H w = while_loop_ref E g (Suc it) lc' cur' rs' H' w'"
  by (simp add: while_loop_ref.simps)

lemma while_loop_ref_Break:
  "it < max_iterations \<Longrightarrow> loop_body_ref E g lc cur rs H w = Break rs' hw
   \<Longrightarrow> while_loop_ref E g it lc cur rs H w = Broke rs' hw"
  by (simp add: while_loop_ref.simps)

lemma while_loop_ref_Raise:
  "it < max_iterations \<Longrightarrow> loop_body_ref E g lc cur rs H w = Raise e cur' rs' hw
   \<Longrightarrow> while_loop_ref E g it lc cur rs H w = Raised e cur' rs' hw"
  by (simp add: while_loop_ref.simps)

lemma while_loop_ref_Exhausted:
  "\<not> it < max_iterations \<Longrightarrow> while_loop_ref E g it lc cur rs H w = Exhausted rs (H, w)"
  by (simp add: while_loop_ref.simps)

text \<open>Along the loop only the state object is changed, and the log only grows.\<close>

lemma while_loop_ref_frame:
  "unchanged_but (state rs) H (fst (exit_world (while_loop_ref E g it lc cur rs H w)))
   \<and> state (exit_state (while_loop_ref E g it lc cur rs H w)) = state rs
   \<and> (\<exists>new. log (exit_state (while_loop_ref E g it lc cur rs H w)) = log rs @ new)"
proof (induction "max_iterations - it" arbitrary: it lc cur rs H w)
  case 0
  then have "\<not> it < max_iterations" by simp
  then show ?case by (simp add: while_loop_ref_Exhausted unchanged_but_refl)
next
  case (Suc j)
  then have lt: "it < max_iterations" by simp
  have j: "j = max_iterations - Suc it" using Suc.hyps(2) by simp
  let ?F = "loop_body_ref E g lc cur rs H w"
  from loop_body_ref_frame [of rs H E g lc cur w] obtain new where
    fr: "unchanged_but (state rs) H (fst (flow_world ?F))" "state (flow_state ?F) = state rs"
      "log (flow_state ?F) = log rs @ new"
    by (elim conjE exE)
  show ?case
  proof (cases ?F)
    case (Continue lc' cur' rs1 hw)
    obtain H1 w1 where hw: "hw = (H1, w1)" by (cases hw)
    let ?X = "while_loop_ref E g (Suc it) lc' cur' rs1 H1 w1"
    have "unchanged_but (state rs1) H1 (fst (exit_world ?X))
       \<and> state (exit_state ?X) = state rs1
       \<and> (\<exists>new. log (exit_state ?X) = log rs1 @ new)"
      by (rule Suc.hyps(1) [OF j])
    then obtain new' where ih: "unchanged_but (state rs1) H1 (fst (exit_world ?X))"
      "state (exit_state ?X) = state rs1" "log (exit_state ?X) = log rs1 @ new'"
      by (elim conjE exE)
    from fr Continue hw have 1: "unchanged_but (state rs) H H1" "state rs1 = state rs"
      "log rs1 = log rs @ new" by simp_all
    from 1 ih have "unchanged_but (state rs) H (fst (exit_world ?X))"
      by (auto intro: unchanged_but_trans)
    moreover from 1 ih have "state (exit_state ?X) = state rs" by simp
    moreover from 1 ih have "log (exit_state ?X) = log rs @ (new @ new')" by simp
    moreover have "while_loop_ref E g it lc cur rs H w = ?X"
      using lt Continue hw by (simp add: while_loop_ref_Continue)
    ultimately show ?thesis by (metis (no_types))
  next
    case (Break rs1 hw)
    with fr lt show ?thesis by (simp add: while_loop_ref_Break)
  next
    case (Raise e cur' rs1 hw)
    with fr lt show ?thesis by (simp add: while_loop_ref_Raise)
  qed
qed

lemma finish_run_ref_frame:
  assumes "finish_run_ref E ex = (rs', H', w')"
  shows "unchanged_but s (fst (exit_world ex)) H'" "state rs' = state (exit_state ex)"
    "\<exists>extra. map state_snapshot (log rs') = map state_snapshot (log (exit_state ex)) @ extra"
proof -
  have "unchanged_but s (fst (exit_world ex)) H' \<and> state rs' = state (exit_state ex)
    \<and> (\<exists>extra. map state_snapshot (log rs') = map state_snapshot (log (exit_state ex)) @ extra)"
  proof (cases ex)
    case (Broke rs hw)
    with assms show ?thesis
      by (cases hw) (auto simp: finish_run_ref_def unchanged_but_refl)
  next
    case (Exhausted rs hw)
    with assms show ?thesis
      by (cases hw) (auto simp: finish_run_ref_def unchanged_but_refl)
  next
    case (Raised e cur rs hw)
    obtain H w where hw: "hw = (H, w)" by (cases hw)
    show ?thesis
    proof (cases "log rs = []")
      case True
      with assms Raised hw show ?thesis
        by (auto simp: finish_run_ref_def handle_exception_ref_def dict_copy_def
            unchanged_but_def Let_def)
    next
      case False
      then obtain xs x where l: "log rs = xs @ [x]" by (cases "log rs" rule: rev_cases) auto
      with assms Raised hw show ?thesis
        by (auto simp: finish_run_ref_def handle_exception_ref_def unchanged_but_refl Let_def)
    qed
  qed
  then show "unchanged_but s (fst (exit_world ex)) H'" "state rs' = state (exit_state ex)"
    "\<exists>extra. map state_snapshot (log rs') = map state_snapshot (log (exit_state ex)) @ extra"
    by blast+
qed


lemma create_run_ref_props:
  assumes "create_run_ref st H new_id u initial_state = (rid, st1, H1)"
  shows "rid = new_id" "H1 = snd (dict_copy H initial_state)"
    "get_run st1 rid = Some (fresh_run new_id u (next_free H))"
    "cells H1 (next_free H) = cells H initial_state" "next_free H1 = Suc (next_free H)"
    "\<And>a. a < next_free H \<Longrightarrow> cells H1 a = cells H a"
  using assms
  by (auto simp: create_run_ref_def dict_copy_def get_run_def fresh_run_def Let_def)

lemma execute_graph_ref_frame:
  assumes "a < next_free H"
  shows "cells (heap_after (execute_graph_ref E st H gid initial_state start new_id w)) a = cells H a"
proof (cases "get_graph st gid")
  case None
  then show ?thesis by (simp add: execute_graph_ref_def heap_after_def)
next
  case (Some g)
  show ?thesis
  proof (cases "parse_uuid E gid")
    case None
    with Some show ?thesis by (simp add: execute_graph_ref_def heap_after_def)
  next
    case u: (Some u)
    obtain rid st1 H1 where cr: "create_run_ref st H new_id u initial_state = (rid, st1, H1)"
      by (cases "create_run_ref st H new_id u initial_state")
    note c = create_run_ref_props [OF cr]
    show ?thesis
    proof (cases "(truthy start \<and> the start \<notin> fst ` set (nodes g)) \<or> (\<not> truthy start \<and> nodes g = [])")
      case True
      with Some u cr c(3) c(6) [OF assms] show ?thesis
        by (auto simp: execute_graph_ref_def heap_after_def)
    next
      case False
      let ?rs = "fresh_run new_id u (next_free H)"
      let ?c = "if truthy start then the start else fst (hd (nodes g))"
      let ?X = "while_loop_ref E g 0 0 (Some ?c) ?rs H1 w"
      obtain rs' H' w' where f: "finish_run_ref E ?X = (rs', H', w')"
        by (cases "finish_run_ref E ?X")
      from while_loop_ref_frame [of ?rs H1 E g 0 0 "Some ?c" w]
      have 1: "unchanged_but (next_free H) H1 (fst (exit_world ?X))"
        by (simp add: fresh_run_def)
      from finish_run_ref_frame(1) [OF f, of "next_free H"]
      have 2: "unchanged_but (next_free H) (fst (exit_world ?X)) H'" .
      from unchanged_but_trans [OF 1 2] assms c(5) have "cells H' a = cells H1 a"
        by (simp add: unchanged_but_def)
      with c(6) [OF assms] have "cells H' a = cells H a" by simp
      moreover from False Some u cr c(3) f
      have "heap_after (execute_graph_ref E st H gid initial_state start new_id w) = H'"
        by (auto simp: execute_graph_ref_def heap_after_def)
      ultimately show ?thesis by simp
    qed
  qed
qed

lemma first_pass_ref:
  "flow_state (loop_body_ref demo_env_ref two_step_graph 0 (Some ''a'')
      (fresh_run ''run-1'' ''g-two'' 1) (snd (dict_copy caller_heap 0)) ())
     = \<lparr>run_id = ''run-1'', run_graph_id = ''g-two'', state = 1,
        log = [\<lparr>node_name = ''a'', state_snapshot = 3, timestamp = 0,
                entry_status = ''completed''\<rparr>],
        status = ''running'', current_node = Some ''a'', error = None\<rparr>"
  "next_free (fst (flow_world (loop_body_ref demo_env_ref two_step_graph 0 (Some ''a'')
      (fresh_run ''run-1'' ''g-two'' 1) (snd (dict_copy caller_heap 0)) ()))) = 4"
  "cells (fst (flow_world (loop_body_ref demo_env_ref two_step_graph 0 (Some ''a'')
      (fresh_run ''run-1'' ''g-two'' 1) (snd (dict_copy caller_heap 0)) ()))) 3
     = [''x'' \<mapsto> 1, ''y'' \<mapsto> 2]"
  by (simp_all add: loop_body_ref_def two_step_graph_def load_from_path_def demo_env_ref_def
      execute_node_ref_def set_x_proc_def dict_copy_def dict_assign_def dict_update_def
      caller_heap_def fresh_run_def get_next_nodes_def Let_def fun_eq_iff)

text \<open>The engine on dictionary objects against the engine on contents.\<close>

lemma execute_node_ref_reads_back:
  assumes "s < next_free H" "execute_node_ref c f s H w = (r, H1, w1)"
  shows "execute_node c (forget f) (cells H s) w
     = (map_sum id (\<lambda>(s', na). (cells H1 s', na)) r, w1)"
proof -
  obtain res left v where fv: "f (cells H s) w = (res, left, v)" by (cases "f (cells H s) w")
  with assms show ?thesis
    by (cases res)
       (auto simp: execute_node_ref_def execute_node_def forget_def dict_copy_def dict_assign_def
          dict_update_def Let_def split: if_splits)
qed

lemma load_from_path_contents:
  "load_from_path (contents_env E) p = map_sum id forget (load_from_path E p)"
  by (simp add: load_from_path_def contents_env_def split: option.splits sum.splits)

lemma now_contents: "now (contents_env E) w = now E w"
  by (simp add: contents_env_def)

lemma deref_log_unchanged:
  assumes "separate H rs" "unchanged_but (state rs) H H'"
  shows "map (deref_entry H') (log rs) = map (deref_entry H) (log rs)"
  using assms by (auto simp: separate_def unchanged_but_def deref_entry_def)

lemma deref_run_updates:
  "deref_run H (rs\<lparr>status := x\<rparr>) = (deref_run H rs)\<lparr>status := x\<rparr>"
  "deref_run H (rs\<lparr>current_node := y\<rparr>) = (deref_run H rs)\<lparr>current_node := y\<rparr>"
  "deref_run H (rs\<lparr>error := z\<rparr>) = (deref_run H rs)\<lparr>error := z\<rparr>"
  by (simp_all add: deref_run_def)

lemma state_deref_run: "state (deref_run H rs) = cells H (state rs)"
  by (simp add: deref_run_def)

lemma separate_updates:
  "separate H (rs\<lparr>status := x\<rparr>) = separate H rs"
  "separate H (rs\<lparr>current_node := y\<rparr>) = separate H rs"
  "separate H (rs\<lparr>error := z\<rparr>) = separate H rs"
  by (simp_all add: separate_def)


text \<open>One pass of the loop on objects reads back as the pass on contents.\<close>

lemma loop_body_ref_reads_back:
  assumes sep: "separate H rs"
  shows "loop_body (contents_env E) g lc cur (deref_run H rs) w
           = deref_flow (loop_body_ref E g lc cur rs H w)
       \<and> separate (fst (flow_world (loop_body_ref E g lc cur rs H w)))
            (flow_state (loop_body_ref E g lc cur rs H w))"
proof (cases cur)
  case None
  with sep show ?thesis
    by (simp add: loop_body_def loop_body_ref_def deref_run_updates separate_updates)
next
  case (Some c)
  show ?thesis
  proof (cases "map_of (nodes g) c")
    case None
    with Some sep show ?thesis by (simp add: loop_body_def loop_body_ref_def)
  next
    case p: (Some p)
    show ?thesis
    proof (cases "p = []")
      case True
      with Some p sep show ?thesis by (simp add: loop_body_def loop_body_ref_def)
    next
      case False
      show ?thesis
      proof (cases "load_from_path E p")
        case (Inl e)
        with Some p False sep show ?thesis
          by (cases e) (simp_all add: loop_body_def loop_body_ref_def load_from_path_contents)
      next
        case (Inr f)
        then have lc: "load_from_path (contents_env E) p = Inr (forget f)"
          by (simp add: load_from_path_contents)
        let ?s = "state rs"
        from sep have alloc: "?s < next_free H" by (simp add: separate_def)
        obtain r H1 w1 where ex: "execute_node_ref c f ?s H w = (r, H1, w1)"
          by (cases "execute_node_ref c f ?s H w")
        note fr = execute_node_ref_frame [OF ex]
        note rb = execute_node_ref_reads_back [OF alloc ex]
        have old1: "map (deref_entry H1) (log rs) = map (deref_entry H) (log rs)"
          by (rule deref_log_unchanged [OF sep fr(1)])
        have sep1: "separate H1 rs" using sep fr(2) by (auto simp: separate_def)
        show ?thesis
        proof (cases r)
          case (Inl e)
          from ex Inl alloc have same: "cells H1 ?s = cells H ?s"
            by (auto simp: execute_node_ref_def dict_copy_def dict_assign_def Let_def
                split: prod.splits py_result.splits if_splits)
          have "deref_run H1 rs = deref_run H rs" by (simp add: deref_run_def old1 same)
          with Some p False Inr lc ex rb Inl sep1 show ?thesis
            by (simp add: loop_body_def loop_body_ref_def deref_run_updates separate_updates
                state_deref_run Let_def)
        next
          case r: (Inr sa)
          obtain s' na where sa: "sa = (s', na)" by (cases sa)
          with r fr(3) have s': "s' = ?s" by simp
          from ex r sa have ex': "execute_node_ref c f ?s H w = (Inr (s', na), H1, w1)" by simp
          from rb r sa s' have exv: "execute_node c (forget f) (state (deref_run H rs)) w
              = (Inr (cells H1 ?s, na), w1)"
            by (simp add: deref_run_def)
          let ?H2 = "snd (dict_copy H1 s')"
          let ?e = "\<lparr>node_name = c, state_snapshot = next_free H1,
                     timestamp = now E w1, entry_status = ''completed''\<rparr>"
          let ?rs2 = "rs\<lparr>current_node := Some c, log := log rs @ [?e]\<rparr>"
          have u12: "unchanged_but ?s H1 ?H2"
            by (rule dict_copy_props(5) [of H1 s']) (rule prod.collapse [symmetric])
          have nf: "next_free ?H2 = Suc (next_free H1)" by (simp add: dict_copy_def)
          have snap: "cells ?H2 (next_free H1) = cells H1 ?s" by (simp add: dict_copy_def s')
          have keep: "cells ?H2 ?s = cells H1 ?s"
            using alloc fr(2) by (simp add: dict_copy_def)
          have old2: "map (deref_entry ?H2) (log rs) = map (deref_entry H) (log rs)"
            using deref_log_unchanged [OF sep1 u12] old1 by simp
          have d2: "deref_run ?H2 ?rs2
              = (deref_run H rs)\<lparr>current_node := Some c, state := cells H1 ?s,
                   log := log (deref_run H rs)
                     @ [\<lparr>node_name = c, state_snapshot = cells H1 ?s,
                          timestamp = now (contents_env E) w1, entry_status = ''completed''\<rparr>]\<rparr>"
            by (simp add: deref_run_def deref_entry_def old2 snap keep now_contents)
          have sep2: "separate ?H2 ?rs2"
            using sep fr(2) nf by (auto simp: separate_def)
          have p': "map_of (nodes g) c = Some p" by (rule p)
          show ?thesis
            unfolding Some loop_body_ran [OF p' False lc exv] loop_body_ref_ran [OF p' False Inr ex']
            using d2 sep2
            by (simp add: Let_def deref_run_updates separate_updates
                split: option.splits edge_target.splits list.splits)
        qed
      qed
    qed
  qed
qed


lemma while_loop_ref_reads_back:
  assumes "separate H rs"
  shows "while_loop (contents_env E) g it lc cur (deref_run H rs) w
           = deref_exit (while_loop_ref E g it lc cur rs H w)
       \<and> separate (fst (exit_world (while_loop_ref E g it lc cur rs H w)))
            (exit_state (while_loop_ref E g it lc cur rs H w))"
  using assms
proof (induction "max_iterations - it" arbitrary: it lc cur rs H w)
  case 0
  then have "\<not> it < max_iterations" by simp
  with 0 show ?case by (simp add: while_loop_Exhausted while_loop_ref_Exhausted)
next
  case (Suc j)
  then have lt: "it < max_iterations" by simp
  have j: "j = max_iterations - Suc it" using Suc.hyps(2) by simp
  let ?F = "loop_body_ref E g lc cur rs H w"
  from loop_body_ref_reads_back [OF Suc.prems, of E g lc cur w]
  have b: "loop_body (contents_env E) g lc cur (deref_run H rs) w = deref_flow ?F"
    and sep': "separate (fst (flow_world ?F)) (flow_state ?F)" by simp_all
  show ?case
  proof (cases ?F)
    case (Continue lc' cur' rs1 hw)
    obtain H1 w1 where hw: "hw = (H1, w1)" by (cases hw)
    from sep' Continue hw have s1: "separate H1 rs1" by simp
    have ih: "while_loop (contents_env E) g (Suc it) lc' cur' (deref_run H1 rs1) w1
           = deref_exit (while_loop_ref E g (Suc it) lc' cur' rs1 H1 w1)
       \<and> separate (fst (exit_world (while_loop_ref E g (Suc it) lc' cur' rs1 H1 w1)))
            (exit_state (while_loop_ref E g (Suc it) lc' cur' rs1 H1 w1))"
      by (rule Suc.hyps(1) [OF j s1])
    from b Continue hw have bv: "loop_body (contents_env E) g lc cur (deref_run H rs) w
        = Continue lc' cur' (deref_run H1 rs1) w1" by simp
    from Continue hw have br: "?F = Continue lc' cur' rs1 (H1, w1)" by simp
    show ?thesis
      unfolding while_loop_Continue [OF lt bv] while_loop_ref_Continue [OF lt br]
      by (rule ih)
  next
    case (Break rs1 hw)
    with b sep' lt show ?thesis by (simp add: while_loop_Break while_loop_ref_Break)
  next
    case (Raise e cur' rs1 hw)
    with b sep' lt show ?thesis by (simp add: while_loop_Raise while_loop_ref_Raise)
  qed
qed

lemma finish_run_ref_reads_back:
  assumes "separate (fst (exit_world ex)) (exit_state ex)"
    and "finish_run_ref E ex = (rs', H', w')"
  shows "finish_run (contents_env E) (deref_exit ex) = (deref_run H' rs', w')"
proof (cases ex)
  case (Broke rs hw)
  with assms(2) show ?thesis
    by (cases hw) (auto simp: finish_run_def finish_run_ref_def deref_run_updates)
next
  case (Exhausted rs hw)
  with assms(2) show ?thesis
    by (cases hw) (auto simp: finish_run_def finish_run_ref_def deref_run_def)
next
  case (Raised e cur rs hw)
  obtain H w where hw: "hw = (H, w)" by (cases hw)
  from assms(1) Raised hw have sep: "separate H rs" by simp
  show ?thesis
  proof (cases "log rs = []")
    case True
    with assms(2) Raised hw sep show ?thesis
      by (auto simp: finish_run_def finish_run_ref_def handle_exception_def
          handle_exception_ref_def deref_run_def deref_entry_def dict_copy_def separate_def
          now_contents Let_def)
  next
    case False
    then obtain xs x where l: "log rs = xs @ [x]" by (cases "log rs" rule: rev_cases) auto
    with assms(2) Raised hw show ?thesis
      by (auto simp: finish_run_def finish_run_ref_def handle_exception_def
          handle_exception_ref_def deref_run_def deref_entry_def Let_def)
  qed
qed

lemma execute_graph_ref_started:
  assumes "get_graph st gid = Some g" "parse_uuid E gid = Some u"
    and "\<not> (truthy start \<and> the start \<notin> fst ` set (nodes g))"
    and "\<not> (\<not> truthy start \<and> nodes g = [])"
    and "finish_run_ref E (while_loop_ref E g 0 0 (Some (first_node g start))
           (fresh_run new_id u (next_free H)) (snd (dict_copy H initial_state)) w) = (rs', H', w')"
  shows "execute_graph_ref E st H gid initial_state start new_id w =
     (Inr rs',
      update_run (st\<lparr>runs := (runs st)(new_id \<mapsto> fresh_run new_id u (next_free H))\<rparr>) new_id rs',
      H', w')"
  using assms
  by (auto simp: execute_graph_ref_def create_run_ref_def dict_copy_def get_run_def
      fresh_run_def first_node_def Let_def)

text \<open>
  A whole call on dictionary objects reads back as the call on contents: the run state it
  returns, read through the heap it leaves, and the world it leaves.
\<close>

lemma execute_graph_ref_reads_back:
  assumes "initial_state < next_free H" "graphs sv = graphs st"
    and "execute_graph_ref E st H gid initial_state start new_id w = (r, st', H', w')"
  shows "fst (execute_graph (contents_env E) sv gid (cells H initial_state) start new_id w)
           = map_sum id (deref_run H') r
       \<and> snd (snd (execute_graph (contents_env E) sv gid (cells H initial_state) start new_id w))
           = w'"
proof -
  have gg: "get_graph sv gid = get_graph st gid" using assms(2) by (simp add: get_graph_def)
  have pu: "parse_uuid (contents_env E) gid = parse_uuid E gid" by (simp add: contents_env_def)
  show ?thesis
  proof (cases "get_graph st gid")
    case None
    with assms(3) gg show ?thesis by (auto simp: execute_graph_def execute_graph_ref_def)
  next
    case (Some g)
    show ?thesis
    proof (cases "parse_uuid E gid")
      case None
      with Some assms(3) gg pu show ?thesis
        by (auto simp: execute_graph_def execute_graph_ref_def)
    next
      case u: (Some u)
      obtain rid st1 H1 where cr: "create_run_ref st H new_id u initial_state = (rid, st1, H1)"
        by (cases "create_run_ref st H new_id u initial_state")
      note c = create_run_ref_props [OF cr]
      show ?thesis
      proof (cases "(truthy start \<and> the start \<notin> fst ` set (nodes g))
                    \<or> (\<not> truthy start \<and> nodes g = [])")
        case True
        with Some u gg pu cr c(3) assms(3) show ?thesis
          by (auto simp: execute_graph_def execute_graph_ref_def create_run_def get_run_def
              Let_def)
      next
        case False
        then have a3: "\<not> (truthy start \<and> the start \<notin> fst ` set (nodes g))"
          and a4: "\<not> (\<not> truthy start \<and> nodes g = [])" by simp_all
        let ?rs = "fresh_run new_id u (next_free H)"
        let ?c = "first_node g start"
        let ?X = "while_loop_ref E g 0 0 (Some ?c) ?rs H1 w"
        have sep: "separate H1 ?rs" using c(5) by (simp add: separate_def fresh_run_def)
        have dr: "deref_run H1 ?rs = fresh_run new_id u (cells H initial_state)"
          using c(4) by (simp add: deref_run_def fresh_run_def)
        from while_loop_ref_reads_back [OF sep, of E g 0 0 "Some ?c" w]
        have wl: "while_loop (contents_env E) g 0 0 (Some ?c)
              (fresh_run new_id u (cells H initial_state)) w = deref_exit ?X"
          and sepX: "separate (fst (exit_world ?X)) (exit_state ?X)"
          by (simp_all add: dr)
        obtain rs1 Hf wf where f: "finish_run_ref E ?X = (rs1, Hf, wf)"
          by (cases "finish_run_ref E ?X")
        from finish_run_ref_reads_back [OF sepX f]
        have fv: "finish_run (contents_env E) (while_loop (contents_env E) g 0 0 (Some ?c)
              (fresh_run new_id u (cells H initial_state)) w) = (deref_run Hf rs1, wf)"
          by (simp add: wl)
        from gg Some have g': "get_graph sv gid = Some g" by simp
        from pu u have u': "parse_uuid (contents_env E) gid = Some u" by simp
        note ev = execute_graph_started [OF g' u' a3 a4 fv]
        from f c(2) have f': "finish_run_ref E (while_loop_ref E g 0 0 (Some ?c) ?rs
            (snd (dict_copy H initial_state)) w) = (rs1, Hf, wf)" by simp
        from execute_graph_ref_started [OF Some u a3 a4 f'] assms(3)
        have "r = Inr rs1 \<and> H' = Hf \<and> w' = wf" by simp
        with ev show ?thesis by simp
      qed
    qed
  qed
qed

section \<open>Claims\<close>

subsection \<open>C1: the log as an audit trail\<close>

text \<open>
  C1 says that the log has one entry for every attempted node invocation, failed ones
  included, and that the status of the last entry tells whether the last attempt succeeded.
  The code at the graph with the edge from \<open>a\<close> to \<open>b\<close>, where \<open>a\<close> succeeds and \<open>b\<close>
  raises: two invocations are attempted, the run fails with the error of \<open>b\<close>, and the log
  has the single entry of \<open>a\<close>, marked \<open>error\<close>.
\<close>

theorem failed_second_node_log:
  "map_option log_summary
     (run_result (execute_graph demo_env demo_store ''g-then-fail'' Map.empty None ''run-1'' ()))
     = Some [(''a'', ''error'')]
   \<and> map_option error
     (run_result (execute_graph demo_env demo_store ''g-then-fail'' Map.empty None ''run-1'' ()))
     = Some (Some (''Error executing node '' @ quoted ''b'' @ '': boom''))"
  by (simp add: execute_graph_def get_graph_def demo_store_def demo_env_def create_run_def
      get_run_def update_run_def then_fail_graph_def while_loop.simps max_iterations_def
      loop_body_def load_from_path_def execute_node_def noop_def failing_def get_next_nodes_def
      finish_run_def handle_exception_def run_result_def log_summary_def Let_def)

subsection \<open>C2: what the abort paths leave behind\<close>




subsection \<open>C3: the cap on consecutive repeats\<close>

text \<open>
  C3. Let the current node be declared and resolvable, with the loop counter at \<open>lc\<close>.
  If the next \<open>100 - lc\<close> invocations of its function all return the string \<open>repeat\<close>
  (100 consecutive ones when the counter starts at 0) and the iteration budget allows them,
  the run ends with status \<open>failed\<close>, the error message naming the loop-iteration limit,
  no current node, and a log whose last entry has status \<open>error\<close>. While the cap is not
  reached, a \<open>repeat\<close> keeps the current node, adds one to the loop counter, and the pass
  through the loop body is the same whatever the edges of the graph are.
\<close>

theorem repeat_reaches_loop_limit:
  assumes "map_of (nodes g) c = Some p" "p \<noteq> []" "load_from_path E p = Inr f"
  shows "(lc < 100 \<and> it + (100 - lc) \<le> 1000 \<and> returns_repeat f (100 - lc) (state rs) w \<longrightarrow>
           (\<exists>rs' w'. finish_run E (while_loop E g it lc (Some c) rs w) = (rs', w')
              \<and> status rs' = ''failed''
              \<and> error rs' = Some ''Loop iteration limit (100) exceeded''
              \<and> current_node rs' = None
              \<and> log rs' \<noteq> [] \<and> entry_status (last (log rs')) = ''error''))
       \<and> (\<forall>w'. f (state rs) w = (RetStr ''repeat'', w') \<and> lc + 1 < 100 \<longrightarrow>
             (\<exists>rs'. loop_body E g lc (Some c) rs w = Continue (lc + 1) (Some c) rs' w')
           \<and> (\<forall>es. loop_body E (g\<lparr>edges := es\<rparr>) lc (Some c) rs w = loop_body E g lc (Some c) rs w))"
proof (intro conjI impI allI)
  assume a: "lc < 100 \<and> it + (100 - lc) \<le> 1000 \<and> returns_repeat f (100 - lc) (state rs) w"
  then have "repeat_streak c f (100 - lc) (state rs) w" by (simp add: returns_repeat_streak)
  moreover have "0 < 100 - lc" "lc + (100 - lc) = max_loop_iterations"
    "it + (100 - lc) \<le> max_iterations"
    using a by (auto simp: max_loop_iterations_def max_iterations_def)
  ultimately obtain rs1 w1 new where
    r: "while_loop E g it lc (Some c) rs w = Raised loop_limit_error (Some c) rs1 w1"
    and l: "log rs1 = log rs @ new" "length new = 100 - lc"
    using streak_hits_loop_limit [OF assms, of "100 - lc" rs w lc it] by blast
  from l a have "log rs1 \<noteq> []" by auto
  from finish_run_Raised [OF this, of E loop_limit_error "Some c" w1] r
  show "\<exists>rs' w'. finish_run E (while_loop E g it lc (Some c) rs w) = (rs', w')
              \<and> status rs' = ''failed''
              \<and> error rs' = Some ''Loop iteration limit (100) exceeded''
              \<and> current_node rs' = None
              \<and> log rs' \<noteq> [] \<and> entry_status (last (log rs')) = ''error''"
    by (auto simp: loop_limit_error_eq)
next
  fix w'
  assume a: "f (state rs) w = (RetStr ''repeat'', w') \<and> lc + 1 < 100"
  then have ex: "execute_node c f (state rs) w = (Inr (state rs, Some ''repeat''), w')"
    by (simp add: execute_node_def)
  from a have n: "\<not> lc + 1 \<ge> max_loop_iterations" by (simp add: max_loop_iterations_def)
  show "\<exists>rs'. loop_body E g lc (Some c) rs w = Continue (lc + 1) (Some c) rs' w'"
    using loop_body_ran [OF assms ex, of lc] n by (simp add: Let_def)
  fix es
  have "map_of (nodes (g\<lparr>edges := es\<rparr>)) c = Some p" using assms(1) by simp
  from loop_body_ran [OF this assms(2,3) ex, of lc] loop_body_ran [OF assms ex, of lc] n
  show "loop_body E (g\<lparr>edges := es\<rparr>) lc (Some c) rs w = loop_body E g lc (Some c) rs w"
    by (simp add: Let_def)
qed

text \<open>A node that always returns \<open>repeat\<close>, started with both counters at 0.\<close>

theorem repeat_reaches_loop_limit_witness:
  "(\<exists>rs' w'. finish_run demo_env (while_loop demo_env repeat_graph 0 0 (Some ''r'')
                 (fresh_run ''r1'' ''g-repeat'' Map.empty) ()) = (rs', w')
      \<and> status rs' = ''failed'' \<and> error rs' = Some ''Loop iteration limit (100) exceeded''
      \<and> current_node rs' = None \<and> log rs' \<noteq> [] \<and> entry_status (last (log rs')) = ''error'')
   \<and> (\<exists>rs'. loop_body demo_env repeat_graph 0 (Some ''r'')
                 (fresh_run ''r1'' ''g-repeat'' Map.empty) () = Continue 1 (Some ''r'') rs' ())"
proof -
  let ?rs = "fresh_run ''r1'' ''g-repeat'' (Map.empty :: int pydict)"
  have n: "map_of (nodes repeat_graph) ''r'' = Some ''repeating''" by (simp add: repeat_graph_def)
  have p: "''repeating'' \<noteq> []" by simp
  have l: "load_from_path (demo_env :: (int, unit) env) ''repeating'' = Inr repeating"
    by (simp add: load_from_path_def demo_env_def)
  have h1: "(0::nat) < 100 \<and> (0::nat) + (100 - 0) \<le> 1000
      \<and> returns_repeat (repeating :: (int, unit) node_func) (100 - 0) (state ?rs) ()"
    by (simp add: returns_repeat_repeating)
  have h2: "(repeating :: (int, unit) node_func) (state ?rs) () = (RetStr ''repeat'', ()) \<and> (0::nat) + 1 < 100"
    by (simp add: repeating_def)
  from repeat_reaches_loop_limit [OF n p l, of 0 0 ?rs "()"] h1 h2
  show ?thesis by simp
qed

subsection \<open>C4: the cap on iterations\<close>

text \<open>
  C4. For any environment, store, graph and arguments: when every node function is wrapped
  so that an invocation adds one to a counter in the world, a call of \<open>execute_graph\<close>
  that starts with the counter at 0 gives the result, the store and the world of the plain
  call, and ends with the counter at most 1000. (The loop is a total function, by its
  termination proof.) And for a graph whose edges never leave a
  set of declared, resolvable nodes that neither raise nor return control-flow strings,
  a run that starts in this set returns a run state with status \<open>failed\<close>, the
  iteration-limit message, and exactly 1000 log entries.
\<close>

theorem iteration_cap:
  "(\<exists>k\<le>1000. execute_graph (counting_env E) st gid init start new_id (0, w)
        = (fst (execute_graph E st gid init start new_id w),
           fst (snd (execute_graph E st gid init start new_id w)),
           (k, snd (snd (execute_graph E st gid init start new_id w)))))
   \<and> (get_graph st gid = Some g \<and> parse_uuid E gid = Some u \<and> cyclic_within E g S
        \<and> ((truthy start \<and> the start \<in> S)
             \<or> (\<not> truthy start \<and> nodes g \<noteq> [] \<and> fst (hd (nodes g)) \<in> S))
      \<longrightarrow> (\<exists>rs st' w'. execute_graph E st gid init start new_id w = (Inr rs, st', w')
             \<and> status rs = ''failed''
             \<and> error rs = Some ''Maximum iterations (1000) exceeded''
             \<and> length (log rs) = 1000))"
proof (intro conjI impI)
  show "\<exists>k\<le>1000. execute_graph (counting_env E) st gid init start new_id (0, w)
        = (fst (execute_graph E st gid init start new_id w),
           fst (snd (execute_graph E st gid init start new_id w)),
           (k, snd (snd (execute_graph E st gid init start new_id w))))"
    using execute_graph_counting [of E st gid init start new_id w]
    by (simp add: max_iterations_def)
next
  assume a: "get_graph st gid = Some g \<and> parse_uuid E gid = Some u \<and> cyclic_within E g S
        \<and> ((truthy start \<and> the start \<in> S)
             \<or> (\<not> truthy start \<and> nodes g \<noteq> [] \<and> fst (hd (nodes g)) \<in> S))"
  then have 1: "get_graph st gid = Some g" and 2: "parse_uuid E gid = Some u"
    and 3: "cyclic_within E g S"
    and 4: "(truthy start \<and> the start \<in> S)
             \<or> (\<not> truthy start \<and> nodes g \<noteq> [] \<and> fst (hd (nodes g)) \<in> S)"
    by simp_all
  from cyclic_run [OF 1 2 3 4, of init new_id w]
  show "\<exists>rs st' w'. execute_graph E st gid init start new_id w = (Inr rs, st', w')
             \<and> status rs = ''failed''
             \<and> error rs = Some ''Maximum iterations (1000) exceeded''
             \<and> length (log rs) = 1000"
    by blast
qed

text \<open>The graph with the single edge from \<open>a\<close> to \<open>a\<close>.\<close>

theorem iteration_cap_witness:
  "\<exists>rs st' w'. execute_graph demo_env demo_store ''g-cycle'' Map.empty None ''run-1'' ()
       = (Inr rs, st', w')
     \<and> status rs = ''failed'' \<and> error rs = Some ''Maximum iterations (1000) exceeded''
     \<and> length (log rs) = 1000"
proof -
  have h1: "get_graph demo_store ''g-cycle'' = Some self_cycle_graph"
    by (simp add: get_graph_def demo_store_def)
  have h2: "parse_uuid (demo_env :: (int, unit) env) ''g-cycle'' = Some ''g-cycle''"
    by (simp add: demo_env_def)
  have h3: "cyclic_within (demo_env :: (int, unit) env) self_cycle_graph {''a''}"
    by (rule self_cycle_is_cyclic)
  have h4: "(truthy None \<and> the None \<in> {''a''})
           \<or> (\<not> truthy None \<and> nodes self_cycle_graph \<noteq> []
                \<and> fst (hd (nodes self_cycle_graph)) \<in> {''a''})"
    by (simp add: self_cycle_graph_def)
  note h = conjI [OF h1 conjI [OF h2 conjI [OF h3 h4]]]
  from iteration_cap [of demo_env demo_store "''g-cycle''" Map.empty None "''run-1''" "()"
      self_cycle_graph "''g-cycle''" "{''a''}"] h
  show ?thesis by blast
qed

subsection \<open>C5: a returned mapping is merged into the run state\<close>

text \<open>
  C5. When the function of the current node returns a mapping, \<open>execute_node\<close> yields the
  state overridden by that mapping and no next action, and the run state after the pass
  through the loop body holds, for every key, the value of the returned mapping where the
  mapping has the key and the previous value of the state where it has not.
\<close>

theorem returned_mapping_is_merged:
  assumes "map_of (nodes g) c = Some p" "p \<noteq> []" "load_from_path E p = Inr f"
    and "f (state rs) w = (RetDict result, w')"
  shows "execute_node c f (state rs) w = (Inr (state rs ++ result, None), w')
       \<and> (\<forall>k. state (flow_state (loop_body E g lc (Some c) rs w)) k
               = (case result k of Some v \<Rightarrow> Some v | None \<Rightarrow> state rs k))"
proof -
  have ex: "execute_node c f (state rs) w = (Inr (state rs ++ result, None), w')"
    using assms(4) by (simp add: execute_node_def)
  have "state (flow_state (loop_body E g lc (Some c) rs w)) = state rs ++ result"
    using loop_body_ran [OF assms(1-3) ex, of lc]
    by (simp add: Let_def split: option.splits edge_target.splits list.splits)
  then show ?thesis using ex by (simp add: map_add_def)
qed

text \<open>
  The example of the specification: state \<open>{"x": 0, "y": 2}\<close> and return value \<open>{"x": 1}\<close>
  give \<open>{"x": 1, "y": 2}\<close>.
\<close>

theorem returned_mapping_is_merged_witness:
  "state (flow_state (loop_body demo_env merge_graph 0 (Some ''a'')
      (fresh_run ''r1'' ''g-merge'' [''x'' \<mapsto> 0, ''y'' \<mapsto> 2]) ())) = [''x'' \<mapsto> 1, ''y'' \<mapsto> 2]"
proof -
  let ?rs = "fresh_run ''r1'' ''g-merge'' [''x'' \<mapsto> 0::int, ''y'' \<mapsto> 2]"
  have n: "map_of (nodes merge_graph) ''a'' = Some ''set_x''" by (simp add: merge_graph_def)
  have p: "''set_x'' \<noteq> []" by simp
  have l: "load_from_path (demo_env :: (int, unit) env) ''set_x'' = Inr set_x"
    by (simp add: load_from_path_def demo_env_def)
  have r: "set_x (state ?rs) () = (RetDict [''x'' \<mapsto> 1], ())" by (simp add: set_x_def)
  from returned_mapping_is_merged [OF n p l r, of 0]
  have "\<forall>k. state (flow_state (loop_body demo_env merge_graph 0 (Some ''a'') ?rs ())) k
      = (case [''x'' \<mapsto> 1::int] k of Some v \<Rightarrow> Some v | None \<Rightarrow> state ?rs k)" by blast
  then show ?thesis by (intro ext) (simp add: fresh_run_def)
qed

subsection \<open>C6: a branching edge takes the first successor\<close>

text \<open>
  C6. When the node has run and its next action is neither \<open>repeat\<close> nor a jump (so that
  the edges are consulted), and the entry of the current node in the edge mapping is a
  non-empty list, the loop continues at the first element of the list with the loop
  counter reset to 0, whatever the run state, the returned state and the previous loop
  counter are. The lookup that the engine makes is the entry of the current node, for
  every state it is given.
\<close>

theorem branch_takes_first_successor:
  assumes "map_of (nodes g) c = Some p" "p \<noteq> []" "load_from_path E p = Inr f"
    and "execute_node c f (state rs) w = (Inr (st', na), w')" "\<not> truthy na"
    and "map_of (edges g) c = Some (Branch (n # ns))"
  shows "(\<exists>rs'. loop_body E g lc (Some c) rs w = Continue 0 (Some n) rs' w')
       \<and> (\<forall>st''. get_next_nodes c (edges g) st'' = Some (Branch (n # ns)))"
proof
  show "\<exists>rs'. loop_body E g lc (Some c) rs w = Continue 0 (Some n) rs' w'"
    using loop_body_ran [OF assms(1-4), of lc] assms(5,6) by (auto simp: Let_def)
  show "\<forall>st''. get_next_nodes c (edges g) st'' = Some (Branch (n # ns))"
    using assms(6) by (simp add: get_next_nodes_def)
qed

text \<open>
  The edges \<open>{"a": ["b", "c"]}\<close> route to \<open>b\<close>, from a loop counter of 7 and the state
  \<open>{"x": 5}\<close>.
\<close>

theorem branch_takes_first_successor_witness:
  "(\<exists>rs'. loop_body demo_env branch_graph 7 (Some ''a'')
       (fresh_run ''r1'' ''g-branch'' [''x'' \<mapsto> 5]) () = Continue 0 (Some ''b'') rs' ())
   \<and> get_next_nodes ''a'' (edges branch_graph) [''x'' \<mapsto> (5::int)] = Some (Branch [''b'', ''c''])"
proof -
  let ?rs = "fresh_run ''r1'' ''g-branch'' [''x'' \<mapsto> 5::int]"
  have n: "map_of (nodes branch_graph) ''a'' = Some ''noop''" by (simp add: branch_graph_def)
  have p: "''noop'' \<noteq> []" by simp
  have l: "load_from_path (demo_env :: (int, unit) env) ''noop'' = Inr noop"
    by (simp add: load_from_path_def demo_env_def)
  have x: "execute_node ''a'' noop (state ?rs) () = (Inr (state ?rs, None), ())"
    by (simp add: execute_node_def noop_def)
  have t: "\<not> truthy None" by simp
  have e: "map_of (edges branch_graph) ''a'' = Some (Branch (''b'' # [''c'']))"
    by (simp add: branch_graph_def)
  from branch_takes_first_successor [OF n p l x t e, of 7] show ?thesis by blast
qed

subsection \<open>C7: an undeclared start node\<close>




subsection \<open>C8: snapshots and nested values\<close>

text \<open>
  C8 says that log snapshots and the state of a new run are deep copies, so that later
  mutations of nested values change neither earlier snapshots nor the mapping of the
  caller. The graph with the edge from \<open>a\<close> to \<open>b\<close>, started on \<open>{"xs": []}\<close>, where \<open>a\<close>
  does nothing and \<open>b\<close> appends 1 to the list under \<open>xs\<close>: right after \<open>a\<close> ran, its
  snapshot shows the empty list; when the run has ended, the same snapshot shows \<open>[1]\<close>,
  and so does the mapping that the caller passed in.
\<close>

theorem later_node_alters_earlier_snapshot:
  "nested_value
     (flow_world (loop_body heap_env heap_graph 0 (Some ''a'')
        (fresh_run ''run-1'' ''g-heap'' [''xs'' \<mapsto> VRef 0]) empty_heap))
     0 ''xs''
     (flow_state (loop_body heap_env heap_graph 0 (Some ''a'')
        (fresh_run ''run-1'' ''g-heap'' [''xs'' \<mapsto> VRef 0]) empty_heap))
     = Some (DList [])
   \<and> Option.bind
       (run_result (execute_graph heap_env heap_store ''g-heap'' [''xs'' \<mapsto> VRef 0] None
          ''run-1'' empty_heap))
       (nested_value
          (snd (snd (execute_graph heap_env heap_store ''g-heap'' [''xs'' \<mapsto> VRef 0] None
             ''run-1'' empty_heap)))
          0 ''xs'')
     = Some (DList [1])
   \<and> map_option log_summary
       (run_result (execute_graph heap_env heap_store ''g-heap'' [''xs'' \<mapsto> VRef 0] None
          ''run-1'' empty_heap))
     = Some [(''a'', ''completed''), (''b'', ''completed'')]
   \<and> deep_view empty_heap [''xs'' \<mapsto> VRef 0] ''xs'' = Some (DList [])
   \<and> deep_view
       (snd (snd (execute_graph heap_env heap_store ''g-heap'' [''xs'' \<mapsto> VRef 0] None
          ''run-1'' empty_heap)))
       [''xs'' \<mapsto> VRef 0] ''xs''
     = Some (DList [1])"
proof -
  have "loop_body heap_env heap_graph 0 (Some ''a'')
        (fresh_run ''run-1'' ''g-heap'' [''xs'' \<mapsto> VRef 0]) empty_heap
      = Continue 0 (Some ''b'')
          ((fresh_run ''run-1'' ''g-heap'' [''xs'' \<mapsto> VRef 0])
             \<lparr>current_node := Some ''a'', state := [''xs'' \<mapsto> VRef 0],
              log := [\<lparr>node_name = ''a'', state_snapshot = [''xs'' \<mapsto> VRef 0], timestamp = 0,
                      entry_status = ''completed''\<rparr>]\<rparr>) empty_heap"
    by (simp add: loop_body_def heap_graph_def load_from_path_def heap_env_def execute_node_def
        noop_def get_next_nodes_def fresh_run_def Let_def)
  then show ?thesis
    unfolding heap_run
    by (simp add: run_result_def nested_value_def deep_view_def log_summary_def
        empty_heap_def fresh_run_def)
qed

text \<open>
  C8, amended. Snapshots and the state of a new run are shallow copies: new dictionary
  objects with the same bindings. On the engine with dictionary objects:
  a call of \<open>execute_graph\<close> leaves every dictionary that existed before the call, the
  mapping of the caller among them, with the bindings it had;
  \<open>create_run\<close> gives the run a new object with the bindings of the initial state;
  when a node has run, the entry appended to the log holds a new object with the bindings
  that the state has right after the merge, the state stays the same object, and that
  object is changed only by a returned mapping, not by what the node function writes into
  the dictionary it was handed;
  from any point of a run on, the snapshot objects already in the log keep their bindings
  to the end of the run;
  and the run state that the call returns, read through the heap that the call leaves, is
  the run state that \<open>execute_graph\<close> on contents returns for the bindings of the caller's
  mapping.
  Nothing is said about the objects that the bound values refer to: they are shared.
\<close>

theorem snapshots_are_shallow_copies:
  "(\<forall>a<next_free H.
       cells (heap_after (execute_graph_ref E st H gid initial_state start new_id w)) a
         = cells H a)
   \<and> (\<forall>rid st1 H1. create_run_ref st H new_id u initial_state = (rid, st1, H1) \<longrightarrow>
         (\<exists>rs. get_run st1 rid = Some rs \<and> log rs = [] \<and> state rs = next_free H
             \<and> state rs < next_free H1 \<and> cells H1 (state rs) = cells H initial_state))
   \<and> (state rs < next_free H0
        \<and> (\<forall>e\<in>set (log rs). state_snapshot e < next_free H0 \<and> state_snapshot e \<noteq> state rs)
        \<and> map_of (nodes g) c = Some p \<and> p \<noteq> [] \<and> load_from_path E p = Inr f
        \<and> execute_node_ref c f (state rs) H0 w0 = (Inr (s', na), H1, w1) \<longrightarrow>
         (\<exists>e. log (flow_state (loop_body_ref E g lc (Some c) rs H0 w0)) = log rs @ [e]
             \<and> node_name e = c
             \<and> next_free H0 \<le> state_snapshot e
             \<and> cells (fst (flow_world (loop_body_ref E g lc (Some c) rs H0 w0))) (state_snapshot e)
                 = cells (fst (flow_world (loop_body_ref E g lc (Some c) rs H0 w0))) (state rs))
         \<and> state (flow_state (loop_body_ref E g lc (Some c) rs H0 w0)) = state rs
         \<and> state rs < next_free (fst (flow_world (loop_body_ref E g lc (Some c) rs H0 w0)))
         \<and> (\<forall>e\<in>set (log (flow_state (loop_body_ref E g lc (Some c) rs H0 w0))).
               state_snapshot e < next_free (fst (flow_world (loop_body_ref E g lc (Some c) rs H0 w0)))
               \<and> state_snapshot e \<noteq> state rs)
         \<and> ((\<forall>d. fst (f (cells H0 (state rs)) w0) \<noteq> RetDict d) \<longrightarrow>
               cells (fst (flow_world (loop_body_ref E g lc (Some c) rs H0 w0))) (state rs)
                 = cells H0 (state rs)))
   \<and> ((\<forall>e\<in>set (log rs). state_snapshot e < next_free H0 \<and> state_snapshot e \<noteq> state rs)
        \<and> finish_run_ref E (while_loop_ref E g it lc cur rs H0 w0) = (rs', H', w') \<longrightarrow>
         take (length (log rs)) (map state_snapshot (log rs')) = map state_snapshot (log rs)
         \<and> (\<forall>e\<in>set (log rs). cells H' (state_snapshot e) = cells H0 (state_snapshot e)))
   \<and> (initial_state < next_free H \<and> graphs sv = graphs st
        \<and> execute_graph_ref E st H gid initial_state start new_id w = (r, st2, H2, w2) \<longrightarrow>
         fst (execute_graph (contents_env E) sv gid (cells H initial_state) start new_id w)
           = map_sum id (deref_run H2) r
         \<and> snd (snd (execute_graph (contents_env E) sv gid (cells H initial_state) start new_id w))
           = w2)"
proof (intro conjI)
  show "\<forall>a<next_free H.
       cells (heap_after (execute_graph_ref E st H gid initial_state start new_id w)) a
         = cells H a"
    by (simp add: execute_graph_ref_frame)
next
  show "\<forall>rid st1 H1. create_run_ref st H new_id u initial_state = (rid, st1, H1) \<longrightarrow>
         (\<exists>rs. get_run st1 rid = Some rs \<and> log rs = [] \<and> state rs = next_free H
             \<and> state rs < next_free H1 \<and> cells H1 (state rs) = cells H initial_state)"
  proof (intro allI impI)
    fix rid st1 H1
    assume cr: "create_run_ref st H new_id u initial_state = (rid, st1, H1)"
    note c = create_run_ref_props [OF cr]
    from c(3,4,5) show "\<exists>rs. get_run st1 rid = Some rs \<and> log rs = [] \<and> state rs = next_free H
             \<and> state rs < next_free H1 \<and> cells H1 (state rs) = cells H initial_state"
      by (simp add: fresh_run_def)
  qed
next
  let ?F = "loop_body_ref E g lc (Some c) rs H0 w0"
  show "state rs < next_free H0
        \<and> (\<forall>e\<in>set (log rs). state_snapshot e < next_free H0 \<and> state_snapshot e \<noteq> state rs)
        \<and> map_of (nodes g) c = Some p \<and> p \<noteq> [] \<and> load_from_path E p = Inr f
        \<and> execute_node_ref c f (state rs) H0 w0 = (Inr (s', na), H1, w1) \<longrightarrow>
         (\<exists>e. log (flow_state ?F) = log rs @ [e]
             \<and> node_name e = c
             \<and> next_free H0 \<le> state_snapshot e
             \<and> cells (fst (flow_world ?F)) (state_snapshot e) = cells (fst (flow_world ?F)) (state rs))
         \<and> state (flow_state ?F) = state rs
         \<and> state rs < next_free (fst (flow_world ?F))
         \<and> (\<forall>e\<in>set (log (flow_state ?F)).
               state_snapshot e < next_free (fst (flow_world ?F)) \<and> state_snapshot e \<noteq> state rs)
         \<and> ((\<forall>d. fst (f (cells H0 (state rs)) w0) \<noteq> RetDict d) \<longrightarrow>
               cells (fst (flow_world ?F)) (state rs) = cells H0 (state rs))"
  proof (intro impI)
    assume a: "state rs < next_free H0
        \<and> (\<forall>e\<in>set (log rs). state_snapshot e < next_free H0 \<and> state_snapshot e \<noteq> state rs)
        \<and> map_of (nodes g) c = Some p \<and> p \<noteq> [] \<and> load_from_path E p = Inr f
        \<and> execute_node_ref c f (state rs) H0 w0 = (Inr (s', na), H1, w1)"
    then have alloc: "state rs < next_free H0"
      and old: "\<forall>e\<in>set (log rs). state_snapshot e < next_free H0 \<and> state_snapshot e \<noteq> state rs"
      and n: "map_of (nodes g) c = Some p" "p \<noteq> []" "load_from_path E p = Inr f"
      and ex: "execute_node_ref c f (state rs) H0 w0 = (Inr (s', na), H1, w1)"
      by simp_all
    note fr = execute_node_ref_frame [OF ex]
    from fr(3) have s': "s' = state rs" by simp
    note sh = loop_body_ref_ran_shape [OF n ex, of lc]
    let ?H2 = "snd (dict_copy H1 s')"
    have H2: "fst (flow_world ?F) = ?H2" using sh(1) by simp
    have nf: "next_free ?H2 = Suc (next_free H1)" "next_free H1 = Suc (next_free H0)"
      using fr(2) by (simp_all add: dict_copy_def)
    have snap: "cells ?H2 (next_free H1) = cells H1 (state rs)"
      by (simp add: dict_copy_def s')
    have keep: "cells ?H2 (state rs) = cells H1 (state rs)"
      using alloc nf by (simp add: dict_copy_def)
    have untouched: "cells H1 (state rs) = cells H0 (state rs)"
      if "\<forall>d. fst (f (cells H0 (state rs)) w0) \<noteq> RetDict d"
    proof -
      obtain r left v where fv: "f (cells H0 (state rs)) w0 = (r, left, v)"
        by (cases "f (cells H0 (state rs)) w0")
      with that have "\<forall>d. r \<noteq> RetDict d" by simp
      with ex fv alloc show ?thesis
        by (cases r)
           (auto simp: execute_node_ref_def dict_copy_def dict_assign_def Let_def
              split: if_splits)
    qed
    show "(\<exists>e. log (flow_state ?F) = log rs @ [e]
             \<and> node_name e = c
             \<and> next_free H0 \<le> state_snapshot e
             \<and> cells (fst (flow_world ?F)) (state_snapshot e) = cells (fst (flow_world ?F)) (state rs))
         \<and> state (flow_state ?F) = state rs
         \<and> state rs < next_free (fst (flow_world ?F))
         \<and> (\<forall>e\<in>set (log (flow_state ?F)).
               state_snapshot e < next_free (fst (flow_world ?F)) \<and> state_snapshot e \<noteq> state rs)
         \<and> ((\<forall>d. fst (f (cells H0 (state rs)) w0) \<noteq> RetDict d) \<longrightarrow>
               cells (fst (flow_world ?F)) (state rs) = cells H0 (state rs))"
      unfolding H2 sh(2) sh(3)
      using snap keep untouched alloc old nf by auto
  qed
next
  show "(\<forall>e\<in>set (log rs). state_snapshot e < next_free H0 \<and> state_snapshot e \<noteq> state rs)
        \<and> finish_run_ref E (while_loop_ref E g it lc cur rs H0 w0) = (rs', H', w') \<longrightarrow>
         take (length (log rs)) (map state_snapshot (log rs')) = map state_snapshot (log rs)
         \<and> (\<forall>e\<in>set (log rs). cells H' (state_snapshot e) = cells H0 (state_snapshot e))"
  proof (intro impI)
    let ?X = "while_loop_ref E g it lc cur rs H0 w0"
    assume a: "(\<forall>e\<in>set (log rs). state_snapshot e < next_free H0 \<and> state_snapshot e \<noteq> state rs)
        \<and> finish_run_ref E ?X = (rs', H', w')"
    then have old: "\<forall>e\<in>set (log rs). state_snapshot e < next_free H0 \<and> state_snapshot e \<noteq> state rs"
      and f: "finish_run_ref E ?X = (rs', H', w')" by simp_all
    from while_loop_ref_frame [of rs H0 E g it lc cur w0] obtain new where
      w: "unchanged_but (state rs) H0 (fst (exit_world ?X))" "log (exit_state ?X) = log rs @ new"
      by (elim conjE exE)
    from finish_run_ref_frame(3) [OF f] obtain extra where
      e: "map state_snapshot (log rs') = map state_snapshot (log (exit_state ?X)) @ extra"
      by (elim exE)
    from unchanged_but_trans [OF w(1) finish_run_ref_frame(1) [OF f, of "state rs"]]
    have u: "unchanged_but (state rs) H0 H'" .
    from e w(2) have "take (length (log rs)) (map state_snapshot (log rs')) = map state_snapshot (log rs)"
      by simp
    moreover from u old have "\<forall>e\<in>set (log rs). cells H' (state_snapshot e) = cells H0 (state_snapshot e)"
      by (simp add: unchanged_but_def)
    ultimately show "take (length (log rs)) (map state_snapshot (log rs')) = map state_snapshot (log rs)
         \<and> (\<forall>e\<in>set (log rs). cells H' (state_snapshot e) = cells H0 (state_snapshot e))"
      by simp
  qed
next
  show "initial_state < next_free H \<and> graphs sv = graphs st
        \<and> execute_graph_ref E st H gid initial_state start new_id w = (r, st2, H2, w2) \<longrightarrow>
         fst (execute_graph (contents_env E) sv gid (cells H initial_state) start new_id w)
           = map_sum id (deref_run H2) r
         \<and> snd (snd (execute_graph (contents_env E) sv gid (cells H initial_state) start new_id w))
           = w2"
  proof (intro impI)
    assume a: "initial_state < next_free H \<and> graphs sv = graphs st
        \<and> execute_graph_ref E st H gid initial_state start new_id w = (r, st2, H2, w2)"
    then have 1: "initial_state < next_free H" and 2: "graphs sv = graphs st"
      and 3: "execute_graph_ref E st H gid initial_state start new_id w = (r, st2, H2, w2)"
      by simp_all
    show "fst (execute_graph (contents_env E) sv gid (cells H initial_state) start new_id w)
           = map_sum id (deref_run H2) r
         \<and> snd (snd (execute_graph (contents_env E) sv gid (cells H initial_state) start new_id w))
           = w2"
      by (rule execute_graph_ref_reads_back [OF 1 2 3])
  qed
qed

text \<open>
  The graph with the edge from \<open>a\<close> to \<open>b\<close>, where \<open>a\<close> returns \<open>{"x": 1}\<close> and \<open>b\<close>
  writes \<open>x = 99\<close> into the dictionary it is handed, called on the mapping
  \<open>{"x": 0, "y": 2}\<close> at address 0: after the call the mapping of the caller is as it was,
  and the snapshot of \<open>a\<close> (the object at address 3) still shows \<open>{"x": 1, "y": 2}\<close> when
  the rest of the run is over.
\<close>

theorem snapshots_are_shallow_copies_witness:
  "cells (heap_after (execute_graph_ref demo_env_ref ref_store caller_heap ''g-two'' 0 None
      ''run-1'' ())) 0 = [''x'' \<mapsto> 0, ''y'' \<mapsto> 2]
   \<and> cells (fst (snd (finish_run_ref demo_env_ref
        (while_loop_ref demo_env_ref two_step_graph 1 0 (Some ''b'')
           (flow_state (loop_body_ref demo_env_ref two_step_graph 0 (Some ''a'')
              (fresh_run ''run-1'' ''g-two'' 1) (snd (dict_copy caller_heap 0)) ()))
           (fst (flow_world (loop_body_ref demo_env_ref two_step_graph 0 (Some ''a'')
              (fresh_run ''run-1'' ''g-two'' 1) (snd (dict_copy caller_heap 0)) ())))
           ())))) 3
     = [''x'' \<mapsto> 1, ''y'' \<mapsto> 2]"
proof -
  let ?F = "loop_body_ref (demo_env_ref :: (int, unit) env_ref) two_step_graph 0 (Some ''a'')
      (fresh_run ''run-1'' ''g-two'' 1) (snd (dict_copy caller_heap 0)) ()"
  let ?R = "finish_run_ref demo_env_ref
        (while_loop_ref demo_env_ref two_step_graph 1 0 (Some ''b'')
           (flow_state ?F) (fst (flow_world ?F)) ())"
  have h0: "(0::nat) < next_free caller_heap" by (simp add: caller_heap_def)
  have h1: "\<forall>e\<in>set (log (flow_state ?F)).
      state_snapshot e < next_free (fst (flow_world ?F)) \<and> state_snapshot e \<noteq> state (flow_state ?F)"
    unfolding first_pass_ref by simp
  have h2: "?R = (fst ?R, fst (snd ?R), snd (snd ?R))" by (simp only: prod.collapse)
  note t = snapshots_are_shallow_copies [where H = caller_heap and E = demo_env_ref
      and st = ref_store and gid = "''g-two''" and initial_state = 0 and start = None
      and new_id = "''run-1''" and w = "()" and rs = "flow_state ?F"
      and ?H0.0 = "fst (flow_world ?F)" and g = two_step_graph and it = 1 and lc = 0
      and cur = "Some ''b''" and ?w0.0 = "()" and rs' = "fst ?R" and H' = "fst (snd ?R)"
      and w' = "snd (snd ?R)"]
  from t h0 have a: "cells (heap_after (execute_graph_ref demo_env_ref ref_store caller_heap
      ''g-two'' 0 None ''run-1'' ())) 0 = cells caller_heap 0"
    by blast
  from t h1 h2 have "\<forall>e\<in>set (log (flow_state ?F)).
      cells (fst (snd ?R)) (state_snapshot e) = cells (fst (flow_world ?F)) (state_snapshot e)"
    by blast
  then have b: "cells (fst (snd ?R)) 3 = cells (fst (flow_world ?F)) 3"
    unfolding first_pass_ref(1) by simp
  have c: "cells caller_heap 0 = [''x'' \<mapsto> 0, ''y'' \<mapsto> 2]" by (simp add: caller_heap_def)
  from a b show ?thesis unfolding first_pass_ref(3) c by (rule conjI)
qed

subsection \<open>C9: a run whose start node is rejected stays \<open>running\<close>\<close>

text \<open>
  C9. When the graph is found and the start node is rejected (a start node is given, that
  is non-empty, and is not declared; or none is given and the node mapping is empty), the
  call raises the error, and the store it leaves holds the new run exactly as \<open>create_run\<close>
  made it: status \<open>running\<close>, empty log, no current node, no error. Every other run of the
  store is as before.
\<close>

theorem rejected_start_leaves_run_running:
  assumes "get_graph st gid = Some g" "parse_uuid E gid = Some u"
    and "(truthy start \<and> the start \<notin> fst ` set (nodes g)) \<or> (\<not> truthy start \<and> nodes g = [])"
  shows "\<exists>m st'. execute_graph E st gid init start new_id w = (Inl (ValueError m), st', w)
     \<and> get_run st' new_id
         = Some \<lparr>run_id = new_id, run_graph_id = u, state = init, log = [],
                 status = ''running'', current_node = None, error = None\<rparr>
     \<and> (\<forall>r. r \<noteq> new_id \<longrightarrow> get_run st' r = get_run st r)
     \<and> graphs st' = graphs st"
  using assms
  by (auto simp: execute_graph_def create_run_def get_run_def Let_def)

theorem rejected_start_leaves_run_running_witness:
  "\<exists>m st'. execute_graph demo_env demo_store ''g-empty'' Map.empty None ''run-1'' ()
       = (Inl (ValueError m), st', ())
     \<and> get_run st' ''run-1''
         = Some \<lparr>run_id = ''run-1'', run_graph_id = ''g-empty'', state = Map.empty, log = [],
                 status = ''running'', current_node = None, error = None\<rparr>"
proof -
  have h1: "get_graph demo_store ''g-empty'' = Some empty_graph"
    by (simp add: get_graph_def demo_store_def)
  have h2: "parse_uuid (demo_env :: (int, unit) env) ''g-empty'' = Some ''g-empty''"
    by (simp add: demo_env_def)
  have h3: "(truthy None \<and> the None \<notin> fst ` set (nodes empty_graph))
      \<or> (\<not> truthy None \<and> nodes empty_graph = [])"
    by (simp add: empty_graph_def)
  from rejected_start_leaves_run_running [OF h1 h2 h3, of Map.empty "''run-1''" "()"]
  show ?thesis by blast
qed

subsection \<open>C10: a jump of a node to itself\<close>

text \<open>
  C10 says that a node returning \<open>goto:X\<close> with its own name \<open>X\<close> never hits the cap on
  repeats. The node named \<open>repeat\<close> that returns \<open>goto:repeat\<close>: \<open>execute_node\<close> strips the
  prefix, the loop reads the next action \<open>repeat\<close>, and the run fails on the loop limit.
\<close>

theorem self_goto_of_node_named_repeat:
  "map_option error
     (run_result (execute_graph demo_env demo_store ''g-named-repeat'' Map.empty None ''run-1'' ()))
     = Some (Some ''Loop iteration limit (100) exceeded'')"
proof -
  let ?rs = "fresh_run ''run-1'' ''g-named-repeat'' (Map.empty :: int pydict)"
  have n: "map_of (nodes node_named_repeat_graph) ''repeat'' = Some ''goto_repeat''"
    by (simp add: node_named_repeat_graph_def)
  have p: "''goto_repeat'' \<noteq> []" by simp
  have l: "load_from_path (demo_env :: (int, unit) env) ''goto_repeat'' = Inr (jump_to ''repeat'')"
    by (simp add: load_from_path_def demo_env_def)
  have s: "repeat_streak ''repeat'' (jump_to ''repeat'' :: (int, unit) node_func) 100 (state ?rs) ()"
    by (rule jump_to_repeat_streak)
  from streak_hits_loop_limit [OF n p l s, of 0 0]
  obtain rs1 w1 where
    r: "while_loop demo_env node_named_repeat_graph 0 0 (Some ''repeat'') ?rs ()
          = Raised loop_limit_error (Some ''repeat'') rs1 w1"
    by (auto simp: max_loop_iterations_def max_iterations_def)
  obtain rs' where f: "finish_run demo_env (Raised loop_limit_error (Some ''repeat'') rs1 w1) = (rs', w1)"
    and e: "error rs' = Some (str_exn loop_limit_error)"
    using finish_run_Raised_any [of demo_env loop_limit_error "Some ''repeat''" rs1 w1] by blast
  have fn: "first_node node_named_repeat_graph None = ''repeat''"
    by (simp add: first_node_def node_named_repeat_graph_def)
  have g1: "get_graph demo_store ''g-named-repeat'' = Some node_named_repeat_graph"
    by (simp add: get_graph_def demo_store_def)
  have g2: "parse_uuid (demo_env :: (int, unit) env) ''g-named-repeat'' = Some ''g-named-repeat''"
    by (simp add: demo_env_def)
  have g3: "\<not> (truthy None \<and> the None \<notin> fst ` set (nodes node_named_repeat_graph))" by simp
  have g4: "\<not> (\<not> truthy None \<and> nodes node_named_repeat_graph = [])"
    by (simp add: node_named_repeat_graph_def)
  from f r fn have "finish_run demo_env (while_loop demo_env node_named_repeat_graph 0 0
      (Some (first_node node_named_repeat_graph None)) ?rs ()) = (rs', w1)" by simp
  from execute_graph_started [OF g1 g2 g3 g4 this] e
  show ?thesis by (simp add: run_result_def loop_limit_error_eq)
qed

text \<open>
  C10, amended. Let the node \<open>c\<close> be declared and resolvable, with a name that is not
  empty, is not \<open>repeat\<close> and does not start with \<open>goto:\<close>, and let its function always
  return \<open>goto:c\<close>. Then every pass through the loop body continues at \<open>c\<close> with the loop
  counter reset to 0, whatever the counter was, and a run from \<open>c\<close> ends on the iteration
  limit after 1000 further log entries, never on the loop limit.
\<close>

theorem self_goto_resets_loop_count:
  assumes "map_of (nodes g) c = Some p" "p \<noteq> []" "load_from_path E p = Inr f"
    and "c \<noteq> []" "c \<noteq> ''repeat''" "\<not> startswith_goto c"
    and "\<forall>st w. fst (f st w) = RetStr (''goto:'' @ c)"
  shows "(\<forall>lc rs w. \<exists>rs' w'. loop_body E g lc (Some c) rs w = Continue 0 (Some c) rs' w')
     \<and> (\<exists>rs' w'. finish_run E (while_loop E g 0 0 (Some c) rs0 w0) = (rs', w')
           \<and> status rs' = ''failed''
           \<and> error rs' = Some ''Maximum iterations (1000) exceeded''
           \<and> length (log rs') = length (log rs0) + 1000)"
proof -
  have step: "\<exists>rs' w'. loop_body E g lc (Some c) rs w = Continue 0 (Some c) rs' w'" for lc rs w
  proof -
    obtain r v where fv: "f (state rs) w = (r, v)" by (cases "f (state rs) w")
    with assms(7) have "r = RetStr (''goto:'' @ c)" by (metis fst_conv)
    with fv have "execute_node c f (state rs) w = (Inr (state rs, Some c), v)"
      by (simp add: execute_node_def startswith_goto_def)
    from loop_body_ran [OF assms(1-3) this, of lc] assms(4-6)
    show ?thesis by (simp add: Let_def)
  qed
  have "\<And>c' lc rs w. c' \<in> {c} \<Longrightarrow>
      \<exists>lc' c'' rs' w'. loop_body E g lc (Some c') rs w = Continue lc' (Some c'') rs' w' \<and> c'' \<in> {c}"
    using step by blast
  from always_continue_run [of "{c}" E g c rs0 w0, OF this]
  have "\<exists>rs' w'. finish_run E (while_loop E g 0 0 (Some c) rs0 w0) = (rs', w')
           \<and> status rs' = ''failed''
           \<and> error rs' = Some ''Maximum iterations (1000) exceeded''
           \<and> length (log rs') = length (log rs0) + 1000"
    by auto
  with step show ?thesis by blast
qed

theorem self_goto_resets_loop_count_witness:
  "(\<exists>rs' w'. loop_body demo_env self_goto_graph 42 (Some ''a'')
        (fresh_run ''run-1'' ''g-goto'' Map.empty) () = Continue 0 (Some ''a'') rs' w')
   \<and> (\<exists>rs' w'. finish_run demo_env (while_loop demo_env self_goto_graph 0 0 (Some ''a'')
          (fresh_run ''run-1'' ''g-goto'' Map.empty) ()) = (rs', w')
        \<and> status rs' = ''failed'' \<and> error rs' = Some ''Maximum iterations (1000) exceeded''
        \<and> length (log rs') = 1000)"
proof -
  let ?rs = "fresh_run ''run-1'' ''g-goto'' (Map.empty :: int pydict)"
  have n: "map_of (nodes self_goto_graph) ''a'' = Some ''goto_a''" by (simp add: self_goto_graph_def)
  have p: "''goto_a'' \<noteq> []" by simp
  have l: "load_from_path (demo_env :: (int, unit) env) ''goto_a'' = Inr (jump_to ''a'')"
    by (simp add: load_from_path_def demo_env_def)
  have c1: "''a'' \<noteq> []" and c2: "''a'' \<noteq> ''repeat''" and c3: "\<not> startswith_goto ''a''"
    by (simp_all add: startswith_goto_def)
  have r: "\<forall>st w. fst ((jump_to ''a'' :: (int, unit) node_func) st w) = RetStr (''goto:'' @ ''a'')"
    by (simp add: jump_to_def)
  from self_goto_resets_loop_count [OF n p l c1 c2 c3 r, of ?rs "()"]
  show ?thesis by (simp add: fresh_run_def)
qed

end
